theory Spec2Isabelle
  imports Complex_Main "HOL-Library.AList"
begin

section \<open>The road-network router of \<^verbatim>\<open>src/services/dijkstra.ts\<close>\<close>

text \<open>
  The class \<^verbatim>\<open>DijkstraRouter\<close> owns two insertion-ordered maps, \<^verbatim>\<open>nodes\<close> and \<^verbatim>\<open>edges\<close>.
  Both are modelled as association lists: a lookup is \<open>map_of\<close>, and \<^verbatim>\<open>Map.set\<close> is
  \<open>AList.update\<close>, which overwrites the entry of an existing key in place and appends a new
  key at the end, as the JavaScript map does.

  JavaScript numbers are modelled as real numbers. Rounding error of floating-point
  arithmetic, NaN and infinite edge attributes are outside this model; the one infinite
  value the algorithm itself creates, the initial tentative distance, is the constructor
  \<open>Infinity\<close> of the type \<open>tentative\<close>.
\<close>

subsection \<open>Data model\<close>

datatype NodeType = city | junction | toll | fuel | rest_area

datatype RoadType = national_highway | state_highway | expressway | city_road

record GraphNode =
  node_id :: string
  lat :: real
  lng :: real
  node_name :: string
  node_type :: NodeType

record GraphEdge =
  edge_from :: string
  edge_to :: string
  distance :: real
  time :: real
  cost :: real
  roadType :: RoadType
  tollCost :: real
  trafficFactor :: real

text \<open>
  A route segment; the \<^verbatim>\<open>instructions\<close> string, which prints a number into a sentence, is
  left out.
\<close>

record RouteSegment =
  seg_from :: GraphNode
  seg_to :: GraphNode
  seg_distance :: real
  seg_time :: real
  seg_roadType :: RoadType

record RouteResult =
  path :: "string list"
  totalDistance :: real
  totalTime :: real
  totalCost :: real
  coordinates :: "(real \<times> real) list"
  segments :: "RouteSegment list"

record Router =
  nodes :: "(string \<times> GraphNode) list"
  edges :: "(string \<times> GraphEdge list) list"

datatype Mode = ModeDistance | ModeTime | ModeCost

text \<open>
  \<open>TypeError\<close>: a property of \<^verbatim>\<open>undefined\<close> is read. \<open>NoReturn\<close>: a loop of the source
  does not come to an end.
\<close>

datatype error = TypeError | NoReturn

subsection \<open>Tentative distances\<close>

datatype tentative = Finite real | Infinity

instantiation tentative :: linorder
begin

fun less_eq_tentative :: "tentative \<Rightarrow> tentative \<Rightarrow> bool" where
  "less_eq_tentative (Finite a) (Finite b) = (a \<le> b)"
| "less_eq_tentative _ Infinity = True"
| "less_eq_tentative Infinity (Finite _) = False"

definition less_tentative :: "tentative \<Rightarrow> tentative \<Rightarrow> bool" where
  "less_tentative x y = (x \<le> y \<and> \<not> y \<le> x)"

instance
proof
  fix x y z :: tentative
  show "(x < y) = (x \<le> y \<and> \<not> y \<le> x)"
    by (simp add: less_tentative_def)
  show "x \<le> x"
    by (cases x) simp_all
  show "x \<le> y \<Longrightarrow> y \<le> z \<Longrightarrow> x \<le> z"
    by (cases x; cases y; cases z) simp_all
  show "x \<le> y \<Longrightarrow> y \<le> x \<Longrightarrow> x = y"
    by (cases x; cases y) simp_all
  show "x \<le> y \<or> y \<le> x"
    by (cases x; cases y) auto
qed

end

text \<open>\<^verbatim>\<open>distances.get(currentNode)! + weight\<close>\<close>

fun add_weight :: "tentative \<Rightarrow> real \<Rightarrow> tentative" where
  "add_weight (Finite a) w = Finite (a + w)"
| "add_weight Infinity w = Infinity"

subsection \<open>Graph access\<close>

definition node_keys :: "Router \<Rightarrow> string list" where
  "node_keys g = map fst (nodes g)"

definition has_node :: "Router \<Rightarrow> string \<Rightarrow> bool" where
  "has_node g k = (map_of (nodes g) k \<noteq> None)"

text \<open>\<^verbatim>\<open>this.edges.get(k) || []\<close>\<close>

definition edge_list :: "Router \<Rightarrow> string \<Rightarrow> GraphEdge list" where
  "edge_list g k = (case map_of (edges g) k of None \<Rightarrow> [] | Some es \<Rightarrow> es)"

definition addEdge :: "Router \<Rightarrow> GraphEdge \<Rightarrow> Router" where
  "addEdge g edge =
     (let es1 = (case map_of (edges g) (edge_from edge) of
                   None \<Rightarrow> AList.update (edge_from edge) [] (edges g)
                 | Some _ \<Rightarrow> edges g)
      in case map_of es1 (edge_from edge) of
           None \<Rightarrow> g\<lparr>edges := es1\<rparr>
         | Some l \<Rightarrow> g\<lparr>edges := AList.update (edge_from edge) (l @ [edge]) es1\<rparr>)"

subsection \<open>The search\<close>

record search_state =
  distances :: "string \<rightharpoonup> tentative"
  previous :: "string \<rightharpoonup> string option"
  visited :: "string set"
  unvisited :: "string list"

definition weight :: "Mode \<Rightarrow> GraphEdge \<Rightarrow> real" where
  "weight optimizeFor edge =
     (case optimizeFor of
        ModeTime \<Rightarrow> time edge * trafficFactor edge
      | ModeCost \<Rightarrow> cost edge + tollCost edge
      | ModeDistance \<Rightarrow> distance edge)"

text \<open>
  Every key gets distance \<open>Infinity\<close>, predecessor \<^verbatim>\<open>null\<close> (\<open>Some None\<close>) and a place in
  \<^verbatim>\<open>unvisited\<close>; then the start gets distance 0.
\<close>

definition init_state :: "Router \<Rightarrow> string \<Rightarrow> search_state" where
  "init_state g startId =
     \<lparr> distances = (map_of (map (\<lambda>k. (k, Infinity)) (node_keys g)))(startId \<mapsto> Finite 0),
       previous = map_of (map (\<lambda>k. (k, None)) (node_keys g)),
       visited = {},
       unvisited = node_keys g \<rparr>"

text \<open>
  The scan for the unvisited node of minimum distance. An id without a distance reads
  \<^verbatim>\<open>undefined\<close>, and \<^verbatim>\<open>undefined < minDistance\<close> is false.
\<close>

fun scan_min :: "(string \<rightharpoonup> tentative) \<Rightarrow> string list \<Rightarrow> string option \<times> tentative
                   \<Rightarrow> string option \<times> tentative" where
  "scan_min D [] acc = acc"
| "scan_min D (nodeId # rest) (currentNode, minDistance) =
     (case D nodeId of
        None \<Rightarrow> scan_min D rest (currentNode, minDistance)
      | Some d \<Rightarrow>
          if d < minDistance then scan_min D rest (Some nodeId, d)
          else scan_min D rest (currentNode, minDistance))"

text \<open>
  One pass of the body of \<^verbatim>\<open>for (const edge of edges)\<close>. A target without a distance
  reads \<^verbatim>\<open>undefined\<close>, and \<^verbatim>\<open>newDistance < undefined\<close> is false.
\<close>

definition relax_edge :: "Mode \<Rightarrow> string \<Rightarrow> search_state \<Rightarrow> GraphEdge \<Rightarrow> search_state" where
  "relax_edge optimizeFor currentNode st edge =
     (if edge_to edge \<in> visited st then st
      else case distances st currentNode of
             None \<Rightarrow> st
           | Some dc \<Rightarrow>
               let newDistance = add_weight dc (weight optimizeFor edge)
               in case distances st (edge_to edge) of
                    None \<Rightarrow> st
                  | Some dt \<Rightarrow>
                      if newDistance < dt
                      then st\<lparr> distances := (distances st)(edge_to edge \<mapsto> newDistance),
                               previous := (previous st)(edge_to edge \<mapsto> Some currentNode) \<rparr>
                      else st)"

definition relax_edges :: "Mode \<Rightarrow> string \<Rightarrow> search_state \<Rightarrow> GraphEdge list \<Rightarrow> search_state" where
  "relax_edges optimizeFor currentNode st es = foldl (relax_edge optimizeFor currentNode) st es"

definition mark_visited :: "string \<Rightarrow> search_state \<Rightarrow> search_state" where
  "mark_visited currentNode st =
     st\<lparr> unvisited := removeAll currentNode (unvisited st),
         visited := insert currentNode (visited st) \<rparr>"

lemma scan_min_cases:
  "scan_min D xs (c0, m0) = (c, m) \<Longrightarrow>
     (c = c0 \<and> m = m0) \<or> (\<exists>x \<in> set xs. c = Some x \<and> D x = Some m \<and> m < m0)"
proof (induction xs arbitrary: c0 m0)
  case Nil
  then show ?case by simp
next
  case (Cons x xs)
  show ?case
  proof (cases "D x")
    case None
    with Cons.prems have "scan_min D xs (c0, m0) = (c, m)" by simp
    from Cons.IH[OF this] show ?thesis by auto
  next
    case (Some d)
    show ?thesis
    proof (cases "d < m0")
      case True
      with Some Cons.prems have "scan_min D xs (Some x, d) = (c, m)" by simp
      from Cons.IH[OF this] True Some show ?thesis by auto
    next
      case False
      with Some Cons.prems have "scan_min D xs (c0, m0) = (c, m)" by simp
      from Cons.IH[OF this] show ?thesis by auto
    qed
  qed
qed

lemma scan_min_mem:
  "scan_min D xs (None, Infinity) = (Some c, m) \<Longrightarrow> c \<in> set xs"
  using scan_min_cases[of D xs None Infinity "Some c" m] by auto

lemma unvisited_relax_edge [simp]: "unvisited (relax_edge m c st e) = unvisited st"
  by (simp add: relax_edge_def Let_def split: option.splits)

lemma visited_relax_edge [simp]: "visited (relax_edge m c st e) = visited st"
  by (simp add: relax_edge_def Let_def split: option.splits)

lemma unvisited_relax_edges [simp]: "unvisited (relax_edges m c st es) = unvisited st"
  unfolding relax_edges_def by (induction es arbitrary: st) simp_all

lemma visited_relax_edges [simp]: "visited (relax_edges m c st es) = visited st"
  unfolding relax_edges_def by (induction es arbitrary: st) simp_all

text \<open>
  The main loop. It stops when nothing is unvisited, when no unvisited node has a finite
  distance, or right after the end node has been marked visited.
\<close>

function dijkstra_loop :: "Router \<Rightarrow> Mode \<Rightarrow> string \<Rightarrow> search_state \<Rightarrow> search_state" where
  "dijkstra_loop g optimizeFor endId st =
     (if unvisited st = [] then st
      else case scan_min (distances st) (unvisited st) (None, Infinity) of
             (None, minDistance) \<Rightarrow> st
           | (Some currentNode, minDistance) \<Rightarrow>
               if minDistance = Infinity then st
               else if currentNode = endId then mark_visited currentNode st
               else dijkstra_loop g optimizeFor endId
                      (relax_edges optimizeFor currentNode (mark_visited currentNode st)
                         (edge_list g currentNode)))"
  by pat_completeness auto
termination
proof (relation "measure (\<lambda>(g, m, e, st). length (unvisited st))")
  show "wf (measure (\<lambda>(g, m, e, st). length (unvisited st)))" by simp
next
  fix g :: Router and optimizeFor :: Mode and endId :: string and st :: search_state
    and x y x2
  assume "(x, y) = scan_min (distances st) (unvisited st) (None, Infinity)"
    and "x = Some x2"
  then have "x2 \<in> set (unvisited st)"
    using scan_min_mem[of "distances st" "unvisited st" x2 y] by simp
  then have "length (removeAll x2 (unvisited st)) < length (unvisited st)"
    by (simp add: length_removeAll_less)
  then show "((g, optimizeFor, endId,
               relax_edges optimizeFor x2 (mark_visited x2 st) (edge_list g x2)),
              (g, optimizeFor, endId, st)) \<in> measure (\<lambda>(g, m, e, st). length (unvisited st))"
    by (simp add: mark_visited_def)
qed

declare dijkstra_loop.simps [simp del]

text \<open>
  Walking the predecessor links back from the end node. \<open>current = None\<close> is \<^verbatim>\<open>null\<close>.
  An id without a predecessor entry reads \<^verbatim>\<open>undefined\<close>, which is not \<^verbatim>\<open>null\<close>: the source
  then loops on \<^verbatim>\<open>undefined\<close> for ever, and so does a cycle of links. Not returning is the
  value \<open>None\<close>.
\<close>

partial_function (option) reconstruct ::
  "(string \<rightharpoonup> string option) \<Rightarrow> string option \<Rightarrow> string list \<Rightarrow> string list option" where
  "reconstruct prev current p =
     (case current of
        None \<Rightarrow> Some p
      | Some c \<Rightarrow> (case prev c of None \<Rightarrow> None | Some c' \<Rightarrow> reconstruct prev c' (c # p)))"

text \<open>\<^verbatim>\<open>Math.round\<close>: the nearest integer, a tie going up.\<close>

definition math_round :: "real \<Rightarrow> real" where
  "math_round x = of_int \<lfloor>x + 1 / 2\<rfloor>"

text \<open>
  The loop of \<^verbatim>\<open>buildRouteResult\<close> over the consecutive pairs of the path, with the running
  totals, coordinates and segments as accumulators. Reading \<^verbatim>\<open>fromNode.lat\<close> of an id that
  is not a node throws, and so does \<^verbatim>\<open>to.name\<close> in \<^verbatim>\<open>generateInstructions\<close>.
\<close>

fun build_loop :: "Router \<Rightarrow> string list \<Rightarrow> real \<Rightarrow> real \<Rightarrow> real \<Rightarrow> (real \<times> real) list
    \<Rightarrow> RouteSegment list
    \<Rightarrow> error + (real \<times> real \<times> real \<times> (real \<times> real) list \<times> RouteSegment list)" where
  "build_loop g (fromId # toId # rest) td tt tc cs ss =
     (case map_of (nodes g) fromId of
        None \<Rightarrow> Inl TypeError
      | Some fromNode \<Rightarrow>
          (case find (\<lambda>e. edge_to e = toId) (edge_list g fromId) of
             None \<Rightarrow> build_loop g (toId # rest) td tt tc (cs @ [(lat fromNode, lng fromNode)]) ss
           | Some edge \<Rightarrow>
               (case map_of (nodes g) toId of
                  None \<Rightarrow> Inl TypeError
                | Some toNode \<Rightarrow>
                    build_loop g (toId # rest)
                      (td + distance edge)
                      (tt + time edge * trafficFactor edge)
                      (tc + (cost edge + tollCost edge))
                      (cs @ [(lat fromNode, lng fromNode)])
                      (ss @ [\<lparr> seg_from = fromNode, seg_to = toNode,
                               seg_distance = distance edge,
                               seg_time = time edge * trafficFactor edge,
                               seg_roadType = roadType edge \<rparr>]))))"
| "build_loop g p td tt tc cs ss = Inr (td, tt, tc, cs, ss)"

definition buildRouteResult :: "Router \<Rightarrow> string list \<Rightarrow> error + RouteResult" where
  "buildRouteResult g p =
     (case build_loop g p 0 0 0 [] [] of
        Inl e \<Rightarrow> Inl e
      | Inr (td, tt, tc, cs, ss) \<Rightarrow>
          if p = [] then
            Inr \<lparr> path = p, totalDistance = math_round td, totalTime = math_round tt,
                  totalCost = math_round tc, coordinates = cs, segments = ss \<rparr>
          else
            (case map_of (nodes g) (last p) of
               None \<Rightarrow> Inl TypeError
             | Some lastNode \<Rightarrow>
                 Inr \<lparr> path = p, totalDistance = math_round td, totalTime = math_round tt,
                       totalCost = math_round tc,
                       coordinates = cs @ [(lat lastNode, lng lastNode)],
                       segments = ss \<rparr>))"

text \<open>
  \<^verbatim>\<open>findShortestPath\<close>. The result \<open>Inr None\<close> is \<^verbatim>\<open>null\<close>. An empty reconstructed path has
  \<^verbatim>\<open>path[0]\<close> undefined, which differs from every start id.
\<close>

definition findShortestPath ::
  "Router \<Rightarrow> string \<Rightarrow> string \<Rightarrow> Mode \<Rightarrow> error + RouteResult option" where
  "findShortestPath g startId endId optimizeFor =
     (if \<not> has_node g startId \<or> \<not> has_node g endId then Inr None
      else
        let st = dijkstra_loop g optimizeFor endId (init_state g startId)
        in case reconstruct (previous st) (Some endId) [] of
             None \<Rightarrow> Inl NoReturn
           | Some p \<Rightarrow>
               (case p of
                  [] \<Rightarrow> Inr None
                | p0 # _ \<Rightarrow>
                    if p0 \<noteq> startId then Inr None
                    else (case buildRouteResult g p of
                            Inl e \<Rightarrow> Inl e
                          | Inr r \<Rightarrow> Inr (Some r))))"

subsection \<open>Alternative routes\<close>



subsection \<open>Dynamic nodes\<close>

text \<open>\<^verbatim>\<open>Math.atan2(y, x)\<close>, the angle of the point \<open>(x, y)\<close>.\<close>

definition atan2 :: "real \<Rightarrow> real \<Rightarrow> real" where
  "atan2 y x =
     (if 0 < x then arctan (y / x)
      else if x < 0 then (if 0 \<le> y then arctan (y / x) + pi else arctan (y / x) - pi)
      else if 0 < y then pi / 2
      else if y < 0 then - pi / 2
      else 0)"

text \<open>
  The haversine formula. For latitudes between -90 and 90 degrees the term \<open>a\<close> lies
  between 0 and 1; elsewhere \<^verbatim>\<open>Math.sqrt\<close> may give NaN, which is outside the model.
\<close>

definition calculateHaversineDistance :: "real \<Rightarrow> real \<Rightarrow> real \<Rightarrow> real \<Rightarrow> real" where
  "calculateHaversineDistance lat1 lng1 lat2 lng2 =
     (let R = 6371;
          dLat = (lat2 - lat1) * pi / 180;
          dLng = (lng2 - lng1) * pi / 180;
          a = sin (dLat / 2) * sin (dLat / 2) +
              cos (lat1 * pi / 180) * cos (lat2 * pi / 180) *
              sin (dLng / 2) * sin (dLng / 2);
          c = 2 * atan2 (sqrt a) (sqrt (1 - a))
      in R * c)"

text \<open>
  The nodes within 100 km of the new node, in map order, each with its distance; the
  entry of the new node's own key is skipped.
\<close>

definition nearbyNodes :: "Router \<Rightarrow> GraphNode \<Rightarrow> (GraphNode \<times> real) list" where
  "nearbyNodes g newNode =
     map (\<lambda>(nodeId, node). (node, calculateHaversineDistance (lat newNode) (lng newNode)
                                      (lat node) (lng node)))
       (filter (\<lambda>(nodeId, node). nodeId \<noteq> node_id newNode \<and>
                  calculateHaversineDistance (lat newNode) (lng newNode) (lat node) (lng node)
                    < 100)
          (nodes g))"

text \<open>The edge from the new node to a neighbour, as the source builds it.\<close>

definition dynamicEdge :: "GraphNode \<Rightarrow> GraphNode \<Rightarrow> real \<Rightarrow> GraphEdge" where
  "dynamicEdge newNode node d =
     (let estimatedTime = d / 60;
          estimatedCost = d * 8
      in \<lparr> edge_from = node_id newNode, edge_to = node_id node, distance = d,
           time = estimatedTime, cost = estimatedCost, roadType = state_highway,
           tollCost = 0, trafficFactor = 1 \<rparr>)"

text \<open>The same edge in the other direction: \<^verbatim>\<open>{...edge, from: node.id, to: newNode.id}\<close>.\<close>

definition backEdge :: "GraphNode \<Rightarrow> GraphNode \<Rightarrow> real \<Rightarrow> GraphEdge" where
  "backEdge newNode node d =
     (dynamicEdge newNode node d)\<lparr> edge_from := node_id node, edge_to := node_id newNode \<rparr>"

text \<open>
  \<^verbatim>\<open>Array.prototype.sort\<close> is stable, and so is \<open>sort_key\<close>; \<^verbatim>\<open>slice(0, 3)\<close> keeps the first
  three of the sorted candidates.
\<close>

definition nearestThree :: "Router \<Rightarrow> GraphNode \<Rightarrow> (GraphNode \<times> real) list" where
  "nearestThree g newNode = take 3 (sort_key snd (nearbyNodes g newNode))"

definition connectToNearestNodes :: "Router \<Rightarrow> GraphNode \<Rightarrow> Router" where
  "connectToNearestNodes g newNode =
     foldl (\<lambda>g' (node, d).
              addEdge (addEdge g' (dynamicEdge newNode node d)) (backEdge newNode node d))
       g (nearestThree g newNode)"

text \<open>\<^verbatim>\<open>this.nodes.set(node.id, node); this.edges.set(node.id, [])\<close>\<close>

definition addNode :: "Router \<Rightarrow> GraphNode \<Rightarrow> Router" where
  "addNode g node =
     g\<lparr> nodes := AList.update (node_id node) node (nodes g),
        edges := AList.update (node_id node) [] (edges g) \<rparr>"

definition addDynamicNode :: "Router \<Rightarrow> GraphNode \<Rightarrow> Router" where
  "addDynamicNode g node = connectToNearestNodes (addNode g node) node"

subsection \<open>The seed network\<close>

definition indianNodes :: "GraphNode list" where
  "indianNodes =
     [
      \<lparr> node_id = ''mumbai'', lat = 19.0760, lng = 72.8777, node_name = ''Mumbai'', node_type = city \<rparr>,
      \<lparr> node_id = ''delhi'', lat = 28.6139, lng = 77.2090, node_name = ''Delhi'', node_type = city \<rparr>,
      \<lparr> node_id = ''bangalore'', lat = 12.9716, lng = 77.5946, node_name = ''Bangalore'', node_type = city \<rparr>,
      \<lparr> node_id = ''chennai'', lat = 13.0827, lng = 80.2707, node_name = ''Chennai'', node_type = city \<rparr>,
      \<lparr> node_id = ''kolkata'', lat = 22.5726, lng = 88.3639, node_name = ''Kolkata'', node_type = city \<rparr>,
      \<lparr> node_id = ''pune'', lat = 18.5204, lng = 73.8567, node_name = ''Pune'', node_type = city \<rparr>,
      \<lparr> node_id = ''hyderabad'', lat = 17.3850, lng = 78.4867, node_name = ''Hyderabad'', node_type = city \<rparr>,
      \<lparr> node_id = ''ahmedabad'', lat = 23.0225, lng = 72.5714, node_name = ''Ahmedabad'', node_type = city \<rparr>,
      \<lparr> node_id = ''jaipur'', lat = 26.9124, lng = 75.7873, node_name = ''Jaipur'', node_type = city \<rparr>,
      \<lparr> node_id = ''surat'', lat = 21.1702, lng = 72.8311, node_name = ''Surat'', node_type = city \<rparr>,
      \<lparr> node_id = ''panvel_junction'', lat = 18.9894, lng = 73.1103, node_name = ''Panvel Junction'', node_type = junction \<rparr>,
      \<lparr> node_id = ''vadodara_junction'', lat = 22.3072, lng = 73.1812, node_name = ''Vadodara Junction'', node_type = junction \<rparr>,
      \<lparr> node_id = ''indore_junction'', lat = 22.7196, lng = 75.8577, node_name = ''Indore Junction'', node_type = junction \<rparr>,
      \<lparr> node_id = ''nagpur_junction'', lat = 21.1458, lng = 79.0882, node_name = ''Nagpur Junction'', node_type = junction \<rparr>,
      \<lparr> node_id = ''khalapur_toll'', lat = 18.8642, lng = 73.3467, node_name = ''Khalapur Toll Plaza'', node_type = toll \<rparr>,
      \<lparr> node_id = ''khed_toll'', lat = 18.7197, lng = 73.4000, node_name = ''Khed Toll Plaza'', node_type = toll \<rparr>,
      \<lparr> node_id = ''lonavala_fuel'', lat = 18.7537, lng = 73.4068, node_name = ''Lonavala Fuel Station'', node_type = fuel \<rparr>,
      \<lparr> node_id = ''nashik_fuel'', lat = 19.9975, lng = 73.7898, node_name = ''Nashik Fuel Station'', node_type = fuel \<rparr>
     ]"

definition indianEdges :: "GraphEdge list" where
  "indianEdges =
     [
      \<lparr> edge_from = ''mumbai'', edge_to = ''panvel_junction'', distance = 42, time = 45, cost = 50,
        roadType = expressway, tollCost = 0, trafficFactor = 1.2 \<rparr>,
      \<lparr> edge_from = ''panvel_junction'', edge_to = ''khalapur_toll'', distance = 28, time = 25, cost = 30,
        roadType = expressway, tollCost = 85, trafficFactor = 1.0 \<rparr>,
      \<lparr> edge_from = ''khalapur_toll'', edge_to = ''lonavala_fuel'', distance = 35, time = 30, cost = 40,
        roadType = expressway, tollCost = 0, trafficFactor = 1.0 \<rparr>,
      \<lparr> edge_from = ''lonavala_fuel'', edge_to = ''pune'', distance = 25, time = 25, cost = 30,
        roadType = expressway, tollCost = 65, trafficFactor = 1.1 \<rparr>,
      \<lparr> edge_from = ''mumbai'', edge_to = ''surat'', distance = 284, time = 300, cost = 350,
        roadType = national_highway, tollCost = 150, trafficFactor = 1.3 \<rparr>,
      \<lparr> edge_from = ''surat'', edge_to = ''vadodara_junction'', distance = 125, time = 120, cost = 150,
        roadType = national_highway, tollCost = 80, trafficFactor = 1.1 \<rparr>,
      \<lparr> edge_from = ''vadodara_junction'', edge_to = ''ahmedabad'', distance = 110, time = 105, cost = 130,
        roadType = national_highway, tollCost = 70, trafficFactor = 1.2 \<rparr>,
      \<lparr> edge_from = ''delhi'', edge_to = ''jaipur'', distance = 280, time = 300, cost = 350,
        roadType = national_highway, tollCost = 120, trafficFactor = 1.4 \<rparr>,
      \<lparr> edge_from = ''jaipur'', edge_to = ''ahmedabad'', distance = 680, time = 720, cost = 850,
        roadType = national_highway, tollCost = 280, trafficFactor = 1.2 \<rparr>,
      \<lparr> edge_from = ''bangalore'', edge_to = ''chennai'', distance = 346, time = 360, cost = 420,
        roadType = national_highway, tollCost = 180, trafficFactor = 1.3 \<rparr>,
      \<lparr> edge_from = ''bangalore'', edge_to = ''hyderabad'', distance = 569, time = 600, cost = 700,
        roadType = national_highway, tollCost = 250, trafficFactor = 1.2 \<rparr>,
      \<lparr> edge_from = ''delhi'', edge_to = ''nagpur_junction'', distance = 1050, time = 1200, cost = 1300,
        roadType = national_highway, tollCost = 450, trafficFactor = 1.3 \<rparr>,
      \<lparr> edge_from = ''nagpur_junction'', edge_to = ''kolkata'', distance = 520, time = 600, cost = 650,
        roadType = national_highway, tollCost = 220, trafficFactor = 1.2 \<rparr>
     ]"

text \<open>Every seed edge is added together with its reverse.\<close>

definition initializeIndianRoadNetwork :: "Router \<Rightarrow> Router" where
  "initializeIndianRoadNetwork g =
     (let g1 = foldl addNode g indianNodes
      in foldl (\<lambda>g' edge.
                  addEdge (addEdge g' edge)
                    \<lparr> edge_from = edge_to edge, edge_to = edge_from edge,
                      distance = distance edge, time = time edge, cost = cost edge,
                      roadType = roadType edge, tollCost = tollCost edge,
                      trafficFactor = trafficFactor edge \<rparr>)
           g1 indianEdges)"

text \<open>The router as the constructor leaves it.\<close>

definition dijkstraRouter :: Router where
  "dijkstraRouter = initializeIndianRoadNetwork \<lparr> nodes = [], edges = [] \<rparr>"

section \<open>Paths of the graph\<close>

text \<open>
  A walk from \<open>u\<close> to \<open>v\<close> is a list of edges, each stored in the adjacency list of the
  node the walk has reached, through ids that are keys of the node map. Its weight under a
  mode is the sum of the weights of its edges.
\<close>

fun is_walk :: "Router \<Rightarrow> string \<Rightarrow> GraphEdge list \<Rightarrow> string \<Rightarrow> bool" where
  "is_walk g u [] v = (u = v \<and> has_node g u)"
| "is_walk g u (e # es) v =
     (has_node g u \<and> e \<in> set (edge_list g u) \<and> is_walk g (edge_to e) es v)"

definition path_weight :: "Mode \<Rightarrow> GraphEdge list \<Rightarrow> real" where
  "path_weight m es = sum_list (map (weight m) es)"

text \<open>
  The edges \<^verbatim>\<open>buildRouteResult\<close> adds up: for each consecutive pair of the path the first
  edge of the adjacency list that leads to the second id, as \<^verbatim>\<open>edges.find\<close> returns it; a
  pair without an edge contributes nothing.
\<close>

fun route_edges :: "Router \<Rightarrow> string list \<Rightarrow> GraphEdge list" where
  "route_edges g (fromId # toId # rest) =
     (case find (\<lambda>e. edge_to e = toId) (edge_list g fromId) of
        None \<Rightarrow> route_edges g (toId # rest)
      | Some edge \<Rightarrow> edge # route_edges g (toId # rest))"
| "route_edges g p = []"


definition effectiveTime :: "GraphEdge \<Rightarrow> real" where
  "effectiveTime e = time e * trafficFactor e"

definition fullCost :: "GraphEdge \<Rightarrow> real" where
  "fullCost e = cost e + tollCost e"

text \<open>No edge between two nodes has a negative weight under the mode.\<close>

definition nonneg :: "Router \<Rightarrow> Mode \<Rightarrow> bool" where
  "nonneg g m =
     list_all (\<lambda>k. list_all (\<lambda>e. has_node g (edge_to e) \<longrightarrow> 0 \<le> weight m e) (edge_list g k))
       (node_keys g)"

text \<open>
  The reverse of an edge swaps its two ids and keeps every attribute. A router is symmetric
  when the reverse of every stored edge is stored in the adjacency list of the edge's
  target.
\<close>

definition reverseEdge :: "GraphEdge \<Rightarrow> GraphEdge" where
  "reverseEdge e = e\<lparr> edge_from := edge_to e, edge_to := edge_from e \<rparr>"

definition symmetric :: "Router \<Rightarrow> bool" where
  "symmetric g =
     list_all (\<lambda>k. list_all (\<lambda>e. reverseEdge e \<in> set (edge_list g (edge_to e))) (edge_list g k))
       (map fst (edges g))"

text \<open>Every entry of the node map is filed under the id of its node.\<close>

definition keys_match :: "Router \<Rightarrow> bool" where
  "keys_match g = list_all (\<lambda>(k, node). node_id node = k) (nodes g)"

subsection \<open>Hand-built graphs\<close>

text \<open>
  Two small graphs for concrete runs. In \<open>handBuilt\<close> the direct edge from \<open>a\<close> to \<open>b\<close> is
  the shortest and the detour through \<open>c\<close> the fastest and cheapest; \<open>d\<close> is isolated, and
  one edge of \<open>a\<close> leads to an id that is no node. In \<open>subsidised\<close> one edge has a negative
  cost.
\<close>

definition testNode :: "string \<Rightarrow> GraphNode" where
  "testNode k = \<lparr> node_id = k, lat = 0, lng = 0, node_name = k, node_type = junction \<rparr>"

definition testEdge :: "string \<Rightarrow> string \<Rightarrow> real \<Rightarrow> real \<Rightarrow> real \<Rightarrow> GraphEdge" where
  "testEdge a b d t c =
     \<lparr> edge_from = a, edge_to = b, distance = d, time = t, cost = c, roadType = city_road,
       tollCost = 0, trafficFactor = 1 \<rparr>"

definition handBuilt :: Router where
  "handBuilt =
     \<lparr> nodes = map (\<lambda>k. (k, testNode k)) [''a'', ''b'', ''c'', ''d''],
       edges = [(''a'', [testEdge ''a'' ''b'' 10 10 100, testEdge ''a'' ''c'' 6 3 10,
                        testEdge ''a'' ''ghost'' 1 1 1]),
                (''b'', []),
                (''c'', [testEdge ''c'' ''b'' 6 3 10]),
                (''d'', [])] \<rparr>"


text \<open>
  Two towns on the equator, half a degree and two degrees east of the origin, joined in
  both directions: the first is within 100 km of the origin, the second is not.
\<close>

definition nearFar :: Router where
  "nearFar =
     \<lparr> nodes = [(''a'', (testNode ''a'')\<lparr> lng := 1 / 2 \<rparr>), (''b'', (testNode ''b'')\<lparr> lng := 2 \<rparr>)],
       edges = [(''a'', [testEdge ''a'' ''b'' 56 50 400]), (''b'', [testEdge ''b'' ''a'' 56 50 400])] \<rparr>"

section \<open>Correctness of the search\<close>

subsection \<open>Tentative distances and the scan\<close>

lemma tentative_less_simps [simp]:
  "(Finite a < Finite b) = (a < b)"
  "(Finite a < Infinity) = True"
  "(Infinity < x) = False"
  by (cases x; auto simp: less_tentative_def)+

lemma tentative_le_Infinity_iff [simp]: "(Infinity \<le> x) = (x = Infinity)"
  by (cases x) simp_all

lemma add_weight_mono: "a \<le> b \<Longrightarrow> add_weight a w \<le> add_weight b w"
  by (cases a; cases b) simp_all

lemma add_weight_nonneg: "0 \<le> w \<Longrightarrow> a \<le> add_weight a w"
  by (cases a) simp_all

lemma has_node_iff: "has_node g k = (k \<in> set (node_keys g))"
  by (simp add: has_node_def node_keys_def map_of_eq_None_iff)

lemma scan_min_spec:
  "scan_min D xs (c0, m0) = (c, m) \<Longrightarrow>
     m \<le> m0 \<and> (\<forall>x\<in>set xs. \<forall>dx. D x = Some dx \<longrightarrow> m \<le> dx) \<and>
     ((c = c0 \<and> m = m0) \<or> (\<exists>x\<in>set xs. c = Some x \<and> D x = Some m \<and> m < m0))"
proof (induction xs arbitrary: c0 m0)
  case Nil
  then show ?case by simp
next
  case (Cons x xs)
  show ?case
  proof (cases "D x")
    case None
    with Cons.prems have "scan_min D xs (c0, m0) = (c, m)" by simp
    from Cons.IH[OF this] None show ?thesis by auto
  next
    case (Some d)
    show ?thesis
    proof (cases "d < m0")
      case True
      with Some Cons.prems have "scan_min D xs (Some x, d) = (c, m)" by simp
      from Cons.IH[OF this] True Some show ?thesis by auto
    next
      case False
      with Some Cons.prems have "scan_min D xs (c0, m0) = (c, m)" by simp
      from Cons.IH[OF this] False Some show ?thesis by auto
    qed
  qed
qed

definition stuck :: "search_state \<Rightarrow> bool" where
  "stuck st = (\<forall>c d. scan_min (distances st) (unvisited st) (None, Infinity) \<noteq> (Some c, Finite d))"

lemma scan_min_found:
  assumes "scan_min D xs (None, Infinity) = (Some c, Finite d)"
  shows "c \<in> set xs" and "D c = Some (Finite d)"
    and "\<And>x dx. x \<in> set xs \<Longrightarrow> D x = Some dx \<Longrightarrow> Finite d \<le> dx"
  using scan_min_spec[OF assms] by auto

lemma stuck_all_infinite:
  assumes "stuck st" and "x \<in> set (unvisited st)" and "distances st x = Some dx"
  shows "dx = Infinity"
proof -
  obtain c m where cm: "scan_min (distances st) (unvisited st) (None, Infinity) = (c, m)"
    by (cases "scan_min (distances st) (unvisited st) (None, Infinity)")
  from scan_min_spec[OF cm] assms(2,3) have le: "m \<le> dx"
    and alt: "(c = None \<and> m = Infinity) \<or> (\<exists>x\<in>set (unvisited st). c = Some x \<and> m < Infinity)"
    by auto
  show ?thesis
  proof (cases m)
    case (Finite d)
    with alt cm assms(1) show ?thesis by (auto simp: stuck_def)
  next
    case Infinity
    with le show ?thesis by simp
  qed
qed

lemma dijkstra_loop_rule:
  assumes "I st"
    and step: "\<And>st c d. I st \<Longrightarrow>
        scan_min (distances st) (unvisited st) (None, Infinity) = (Some c, Finite d) \<Longrightarrow>
        c \<noteq> t \<Longrightarrow> I (relax_edges m c (mark_visited c st) (edge_list g c))"
  shows "\<exists>st'. I st' \<and>
     ((stuck st' \<and> dijkstra_loop g m t st = st') \<or>
      (\<exists>d. scan_min (distances st') (unvisited st') (None, Infinity) = (Some t, Finite d) \<and>
           dijkstra_loop g m t st = mark_visited t st'))"
  using assms
proof (induction g m t st rule: dijkstra_loop.induct)
  case (1 g m t st)
  note Ist = "1.prems"(1) and step = "1.prems"(2)
  obtain c md where cm: "scan_min (distances st) (unvisited st) (None, Infinity) = (c, md)"
    by (cases "scan_min (distances st) (unvisited st) (None, Infinity)")
  show ?case
  proof (cases "\<exists>c' d. c = Some c' \<and> md = Finite d")
    case False
    then have "stuck st" using cm by (auto simp: stuck_def)
    moreover have "dijkstra_loop g m t st = st"
    proof (cases "unvisited st = []")
      case True
      then show ?thesis by (simp add: dijkstra_loop.simps)
    next
      case ne: False
      show ?thesis
      proof (cases c)
        case None
        with cm ne show ?thesis by (simp add: dijkstra_loop.simps)
      next
        case (Some c')
        with False have "md = Infinity" by (cases md) auto
        with cm ne Some show ?thesis by (simp add: dijkstra_loop.simps)
      qed
    qed
    ultimately show ?thesis using Ist by auto
  next
    case True
    then obtain c' d where c: "c = Some c'" and d: "md = Finite d" by auto
    from scan_min_found(1)[OF cm[unfolded c d]] have ne: "unvisited st \<noteq> []" by auto
    show ?thesis
    proof (cases "c' = t")
      case True
      with cm c d ne have "dijkstra_loop g m t st = mark_visited t st"
        by (simp add: dijkstra_loop.simps)
      with cm c d True Ist show ?thesis by auto
    next
      case False
      let ?st1 = "relax_edges m c' (mark_visited c' st) (edge_list g c')"
      have eq: "dijkstra_loop g m t st = dijkstra_loop g m t ?st1"
        using cm c d ne False by (subst dijkstra_loop.simps) simp
      have "I ?st1" using step[OF Ist cm[unfolded c d] False] .
      from "1.IH"[OF ne cm[symmetric] c _ False this step] d
      show ?thesis unfolding eq by simp
    qed
  qed
qed

subsection \<open>The predecessor tree\<close>

inductive tree_walk ::
  "Router \<Rightarrow> (string \<rightharpoonup> string option) \<Rightarrow> string set \<Rightarrow> string \<Rightarrow> GraphEdge list \<Rightarrow> string \<Rightarrow> bool"
  for g P V s where
  tw_base: "has_node g s \<Longrightarrow> P s = Some None \<Longrightarrow> tree_walk g P V s [] s"
| tw_step: "tree_walk g P V s es u \<Longrightarrow> u \<in> V \<Longrightarrow> e \<in> set (edge_list g u) \<Longrightarrow>
            has_node g (edge_to e) \<Longrightarrow> P (edge_to e) = Some (Some u) \<Longrightarrow>
            tree_walk g P V s (es @ [e]) (edge_to e)"

lemma is_walk_has_node: "is_walk g u es v \<Longrightarrow> has_node g u \<and> has_node g v"
  by (induction es arbitrary: u) auto

lemma is_walk_snoc:
  "is_walk g u (es @ [e]) v =
     (\<exists>x. is_walk g u es x \<and> e \<in> set (edge_list g x) \<and> edge_to e = v \<and> has_node g v)"
  by (induction es arbitrary: u) (auto dest: is_walk_has_node)

lemma path_weight_simps [simp]:
  "path_weight m [] = 0"
  "path_weight m (es @ [e]) = path_weight m es + weight m e"
  "path_weight m (e # es) = weight m e + path_weight m es"
  by (simp_all add: path_weight_def)

lemma tree_walk_is_walk: "tree_walk g P V s es x \<Longrightarrow> is_walk g s es x"
  by (induction rule: tree_walk.induct) (auto simp: is_walk_snoc)

lemma tree_walk_mono: "tree_walk g P V s es x \<Longrightarrow> V \<subseteq> V' \<Longrightarrow> tree_walk g P V' s es x"
  by (induction rule: tree_walk.induct) (auto intro: tree_walk.intros)

lemma tree_walk_upd:
  "tree_walk g P V s es x \<Longrightarrow> v \<notin> V \<Longrightarrow> v \<noteq> s \<Longrightarrow> v \<noteq> x \<Longrightarrow>
     tree_walk g (P(v \<mapsto> y)) V s es x"
proof (induction rule: tree_walk.induct)
  case tw_base
  then show ?case by (auto intro: tree_walk.intros)
next
  case (tw_step es u e)
  then have "v \<noteq> u" by auto
  with tw_step show ?case by (auto intro!: tree_walk.tw_step)
qed

lemma tree_walk_reconstruct:
  "tree_walk g P V s es x \<Longrightarrow> reconstruct P (Some x) acc = Some (s # map edge_to es @ acc)"
proof (induction arbitrary: acc rule: tree_walk.induct)
  case tw_base
  then show ?case by (simp add: reconstruct.simps)
next
  case (tw_step es u e)
  have "reconstruct P (Some (edge_to e)) acc = reconstruct P (Some u) (edge_to e # acc)"
    using tw_step.hyps(5) by (subst reconstruct.simps) simp
  also have "\<dots> = Some (s # map edge_to es @ (edge_to e # acc))"
    by (rule tw_step.IH)
  finally show ?case by simp
qed

definition fin_edge :: "search_state \<Rightarrow> GraphEdge \<Rightarrow> bool" where
  "fin_edge st e = (distances st (edge_to e) \<noteq> Some Infinity)"

definition inv_s :: "Router \<Rightarrow> Mode \<Rightarrow> string \<Rightarrow> search_state \<Rightarrow> bool" where
  "inv_s g m s st =
    (dom (distances st) = set (node_keys g) \<and> dom (previous st) = set (node_keys g) \<and>
     visited st \<union> set (unvisited st) = set (node_keys g) \<and>
     visited st \<inter> set (unvisited st) = {} \<and>
     distances st s = Some (Finite 0) \<and> previous st s = Some None \<and>
     (s \<in> set (unvisited st) \<longrightarrow> (\<forall>x d. distances st x = Some (Finite d) \<longrightarrow> x = s)) \<and>
     (\<forall>x\<in>visited st. distances st x \<noteq> Some Infinity) \<and>
     (\<forall>x. distances st x = Some Infinity \<longrightarrow> previous st x = Some None) \<and>
     (\<forall>x d. distances st x = Some (Finite d) \<longrightarrow>
        (\<exists>es. tree_walk g (previous st) (visited st) s es x \<and> path_weight m es = d)))"

lemma inv_sD:
  assumes "inv_s g m s st"
  shows "dom (distances st) = set (node_keys g)" "dom (previous st) = set (node_keys g)"
    "visited st \<union> set (unvisited st) = set (node_keys g)"
    "visited st \<inter> set (unvisited st) = {}"
    "distances st s = Some (Finite 0)" "previous st s = Some None"
    "\<And>x d. s \<in> set (unvisited st) \<Longrightarrow> distances st x = Some (Finite d) \<Longrightarrow> x = s"
    "\<And>x. x \<in> visited st \<Longrightarrow> distances st x \<noteq> Some Infinity"
    "\<And>x. distances st x = Some Infinity \<Longrightarrow> previous st x = Some None"
    "\<And>x d. distances st x = Some (Finite d) \<Longrightarrow>
        \<exists>es. tree_walk g (previous st) (visited st) s es x \<and> path_weight m es = d"
  using assms unfolding inv_s_def by blast+

lemma relax_edge_cases:
  obtains (same) "relax_edge m c st e = st"
      "edge_to e \<in> visited st \<or> distances st c = None \<or> distances st (edge_to e) = None \<or>
       (\<exists>dc dt. distances st c = Some dc \<and> distances st (edge_to e) = Some dt \<and>
          \<not> add_weight dc (weight m e) < dt)"
  | (upd) dc dt where "edge_to e \<notin> visited st" "distances st c = Some dc"
      "distances st (edge_to e) = Some dt" "add_weight dc (weight m e) < dt"
      "relax_edge m c st e =
         st\<lparr> distances := (distances st)(edge_to e \<mapsto> add_weight dc (weight m e)),
             previous := (previous st)(edge_to e \<mapsto> Some c) \<rparr>"
proof (cases "edge_to e \<in> visited st")
  case True
  then show ?thesis by (intro same) (simp_all add: relax_edge_def)
next
  case nv: False
  show ?thesis
  proof (cases "distances st c")
    case None
    with nv show ?thesis by (intro same) (simp_all add: relax_edge_def)
  next
    case dc: (Some dc)
    show ?thesis
    proof (cases "distances st (edge_to e)")
      case None
      with nv dc show ?thesis by (intro same) (simp_all add: relax_edge_def)
    next
      case dt: (Some dt)
      show ?thesis
      proof (cases "add_weight dc (weight m e) < dt")
        case True
        with nv dc dt show ?thesis by (intro upd[of dc dt]) (simp_all add: relax_edge_def)
      next
        case False
        with nv dc dt show ?thesis by (intro same) (simp_all add: relax_edge_def)
      qed
    qed
  qed
qed

lemma relax_edge_frame:
  "x \<in> visited st \<Longrightarrow> distances (relax_edge m c st e) x = distances st x"
  "x \<in> visited st \<Longrightarrow> previous (relax_edge m c st e) x = previous st x"
  by (cases rule: relax_edge_cases[of m c st e]; auto)+

lemma relax_edge_mono:
  "distances st x = Some d \<Longrightarrow> \<exists>d'. distances (relax_edge m c st e) x = Some d' \<and> d' \<le> d"
  by (cases rule: relax_edge_cases[of m c st e]) auto

lemma relax_edge_dom: "dom (distances (relax_edge m c st e)) = dom (distances st)"
  by (cases rule: relax_edge_cases[of m c st e]) auto

lemma relax_edge_establish:
  assumes "distances st c = Some dc" "distances st (edge_to e) = Some dt"
    "edge_to e \<notin> visited st"
  shows "\<exists>d'. distances (relax_edge m c st e) (edge_to e) = Some d' \<and>
     d' \<le> add_weight dc (weight m e)"
  using assms by (cases rule: relax_edge_cases[of m c st e]) auto

lemma less_Finite_D: "x < y \<Longrightarrow> \<exists>a. x = Finite a" for x y :: tentative
  by (cases x) auto

lemma le_Finite_D: "x \<le> Finite b \<Longrightarrow> \<exists>a. x = Finite a \<and> a \<le> b"
  by (cases x) auto

lemma inv_s_relax_edge:
  assumes inv: "inv_s g m s st" and sv: "s \<in> visited st" and cv: "c \<in> visited st"
    and e: "e \<in> set (edge_list g c)"
  shows "inv_s g m s (relax_edge m c st e)"
proof (cases rule: relax_edge_cases[of m c st e])
  case same
  with inv show ?thesis by simp
next
  case (upd dc dt)
  let ?v = "edge_to e"
  let ?st' = "relax_edge m c st e"
  from less_Finite_D[OF upd(4)] obtain a where a: "add_weight dc (weight m e) = Finite a" by auto
  then obtain b where b: "dc = Finite b" and ab: "a = b + weight m e" by (cases dc) auto
  have vs: "?v \<noteq> s" and vc: "?v \<noteq> c" using upd(1) sv cv by auto
  have vK: "?v \<in> set (node_keys g)" using inv_sD(1)[OF inv] upd(3) by auto
  have D': "distances ?st' = (distances st)(?v \<mapsto> Finite a)"
    and P': "previous ?st' = (previous st)(?v \<mapsto> Some c)"
    and V': "visited ?st' = visited st" and U': "unvisited ?st' = unvisited st"
    using upd(5) a by simp_all
  from inv_sD(10)[OF inv, of c b] b upd(2)
  obtain esc where esc: "tree_walk g (previous st) (visited st) s esc c"
    "path_weight m esc = b" by auto
  have twc: "tree_walk g (previous ?st') (visited st) s esc c"
    unfolding P' using esc(1) upd(1) vs vc by (rule tree_walk_upd)
  have twv: "tree_walk g (previous ?st') (visited st) s (esc @ [e]) ?v"
  proof (rule tree_walk.tw_step[OF twc cv e])
    show "has_node g ?v" using vK by (simp add: has_node_iff)
    show "previous ?st' ?v = Some (Some c)" by (simp add: P')
  qed
  have S7: "\<exists>es. tree_walk g (previous ?st') (visited ?st') s es x \<and> path_weight m es = d"
    if "distances ?st' x = Some (Finite d)" for x d
  proof (cases "x = ?v")
    case True
    with that D' have "d = a" by simp
    with twv esc(2) ab True V' show ?thesis by (intro exI[of _ "esc @ [e]"]) simp
  next
    case False
    with that D' have "distances st x = Some (Finite d)" by simp
    from inv_sD(10)[OF inv this]
    obtain es where "tree_walk g (previous st) (visited st) s es x" "path_weight m es = d"
      by auto
    then show ?thesis unfolding P' V' using upd(1) vs False
      by (intro exI[of _ es]) (auto intro: tree_walk_upd)
  qed
  have dom1: "dom (distances ?st') = set (node_keys g)"
    using inv_sD(1)[OF inv] vK unfolding D' by auto
  have dom2: "dom (previous ?st') = set (node_keys g)"
    using inv_sD(2)[OF inv] vK unfolding P' by auto
  have S3: "distances ?st' s = Some (Finite 0)" "previous ?st' s = Some None"
    using inv_sD(5,6)[OF inv] vs unfolding D' P' by auto
  have S4: "s \<notin> set (unvisited ?st')" using inv_sD(4)[OF inv] sv unfolding U' by auto
  have S5: "\<forall>x\<in>visited ?st'. distances ?st' x \<noteq> Some Infinity"
    using inv_sD(8)[OF inv] upd(1) unfolding D' V' by auto
  have S6: "\<forall>x. distances ?st' x = Some Infinity \<longrightarrow> previous ?st' x = Some None"
    using inv_sD(9)[OF inv] unfolding D' P' by auto
  have S2: "visited ?st' \<union> set (unvisited ?st') = set (node_keys g)"
    "visited ?st' \<inter> set (unvisited ?st') = {}"
    using inv_sD(3,4)[OF inv] unfolding V' U' by auto
  show ?thesis
    unfolding inv_s_def using dom1 dom2 S2 S3 S4 S5 S6 S7 by blast
qed

subsection \<open>The invariant through one round of the loop\<close>

lemma map_of_const_keys:
  "map_of (map (\<lambda>k. (k, c)) ks) x = (if x \<in> set ks then Some c else None)"
  by (induction ks) auto

lemma inv_sI:
  assumes "dom (distances st) = set (node_keys g)" "dom (previous st) = set (node_keys g)"
    "visited st \<union> set (unvisited st) = set (node_keys g)"
    "visited st \<inter> set (unvisited st) = {}"
    "distances st s = Some (Finite 0)" "previous st s = Some None"
    "\<And>x d. s \<in> set (unvisited st) \<Longrightarrow> distances st x = Some (Finite d) \<Longrightarrow> x = s"
    "\<And>x. x \<in> visited st \<Longrightarrow> distances st x \<noteq> Some Infinity"
    "\<And>x. distances st x = Some Infinity \<Longrightarrow> previous st x = Some None"
    "\<And>x d. distances st x = Some (Finite d) \<Longrightarrow>
        \<exists>es. tree_walk g (previous st) (visited st) s es x \<and> path_weight m es = d"
  shows "inv_s g m s st"
  unfolding inv_s_def using assms by blast

lemma inv_s_init:
  assumes "has_node g s"
  shows "inv_s g m s (init_state g s)"
proof -
  have sK: "s \<in> set (node_keys g)" using assms by (simp add: has_node_iff)
  have D: "distances (init_state g s) x =
      (if x = s then Some (Finite 0) else if x \<in> set (node_keys g) then Some Infinity else None)"
    for x by (simp add: init_state_def map_of_const_keys)
  have P: "previous (init_state g s) x = (if x \<in> set (node_keys g) then Some None else None)"
    for x by (simp add: init_state_def map_of_const_keys)
  have V: "visited (init_state g s) = {}" and U: "unvisited (init_state g s) = node_keys g"
    by (simp_all add: init_state_def)
  have tw: "tree_walk g (previous (init_state g s)) (visited (init_state g s)) s [] s"
    using assms sK by (intro tree_walk.tw_base) (simp_all add: P)
  have S7: "\<exists>es. tree_walk g (previous (init_state g s)) (visited (init_state g s)) s es x \<and>
      path_weight m es = d" if "distances (init_state g s) x = Some (Finite d)" for x d
  proof -
    from that have "x = s \<and> d = 0" unfolding D by (auto split: if_splits)
    with tw show ?thesis by (intro exI[of _ "[]"]) simp
  qed
  show ?thesis
  proof (rule inv_sI)
    show "dom (distances (init_state g s)) = set (node_keys g)"
      using sK by (auto simp: D dom_def split: if_splits)
    show "dom (previous (init_state g s)) = set (node_keys g)"
      by (auto simp: P dom_def split: if_splits)
    show "visited (init_state g s) \<union> set (unvisited (init_state g s)) = set (node_keys g)"
      by (simp add: V U)
    show "visited (init_state g s) \<inter> set (unvisited (init_state g s)) = {}"
      by (simp add: V)
    show "distances (init_state g s) s = Some (Finite 0)" by (simp add: D)
    show "previous (init_state g s) s = Some None" using sK by (simp add: P)
    show "x = s" if "distances (init_state g s) x = Some (Finite d)" for x d
      using that by (auto simp: D split: if_splits)
    show "distances (init_state g s) x \<noteq> Some Infinity" if "x \<in> visited (init_state g s)"
      for x using that by (simp add: V)
    show "previous (init_state g s) x = Some None"
      if "distances (init_state g s) x = Some Infinity" for x
      using that by (auto simp: D P split: if_splits)
  qed (rule S7)
qed

lemma mark_visited_simps [simp]:
  "distances (mark_visited c st) = distances st"
  "previous (mark_visited c st) = previous st"
  "visited (mark_visited c st) = insert c (visited st)"
  "unvisited (mark_visited c st) = removeAll c (unvisited st)"
  by (simp_all add: mark_visited_def)

lemma inv_s_mark:
  assumes inv: "inv_s g m s st"
    and scan: "scan_min (distances st) (unvisited st) (None, Infinity) = (Some c, Finite d)"
  shows "inv_s g m s (mark_visited c st)" and "s \<in> visited (mark_visited c st)"
proof -
  note cU = scan_min_found(1)[OF scan] and Dc = scan_min_found(2)[OF scan]
  have cs: "c = s" if "s \<in> set (unvisited st)"
    using inv_sD(7)[OF inv that Dc] .
  have sK: "s \<in> set (node_keys g)" using inv_sD(1,5)[OF inv] by auto
  show sv: "s \<in> visited (mark_visited c st)"
    using cs sK inv_sD(3)[OF inv] by auto
  have S2: "visited (mark_visited c st) \<union> set (unvisited (mark_visited c st)) = set (node_keys g)"
    "visited (mark_visited c st) \<inter> set (unvisited (mark_visited c st)) = {}"
    using inv_sD(3,4)[OF inv] cU by auto
  have S4: "s \<notin> set (unvisited (mark_visited c st))"
    using cs by auto
  have S5: "distances (mark_visited c st) x \<noteq> Some Infinity"
    if "x \<in> visited (mark_visited c st)" for x
    using inv_sD(8)[OF inv, of x] Dc that by auto
  have S7: "\<exists>es. tree_walk g (previous (mark_visited c st)) (visited (mark_visited c st)) s es x \<and>
      path_weight m es = d'" if "distances (mark_visited c st) x = Some (Finite d')" for x d'
  proof -
    from that have "distances st x = Some (Finite d')" by simp
    from inv_sD(10)[OF inv this] obtain es where
      "tree_walk g (previous st) (visited st) s es x" "path_weight m es = d'" by auto
    then show ?thesis
      by (intro exI[of _ es]) (auto intro: tree_walk_mono)
  qed
  show "inv_s g m s (mark_visited c st)"
  proof (rule inv_sI)
    show "dom (distances (mark_visited c st)) = set (node_keys g)"
      using inv_sD(1)[OF inv] by simp
    show "dom (previous (mark_visited c st)) = set (node_keys g)"
      using inv_sD(2)[OF inv] by simp
    show "distances (mark_visited c st) s = Some (Finite 0)"
      using inv_sD(5)[OF inv] by simp
    show "previous (mark_visited c st) s = Some None"
      using inv_sD(6)[OF inv] by simp
    show "x = s" if "s \<in> set (unvisited (mark_visited c st))" for x
      using that S4 by simp
    show "previous (mark_visited c st) x = Some None"
      if "distances (mark_visited c st) x = Some Infinity" for x
      using inv_sD(9)[OF inv, of x] that by simp
  qed (rule S2 S5 S7; assumption)+
qed

lemma relax_edges_snoc:
  "relax_edges m c st (es @ [e]) = relax_edge m c (relax_edges m c st es) e"
  by (simp add: relax_edges_def)

lemma relax_edges_Nil [simp]: "relax_edges m c st [] = st"
  by (simp add: relax_edges_def)

lemma fin_edge_stable:
  assumes "fin_edge st e'"
  shows "fin_edge (relax_edge m c st e) e'"
proof (cases "distances st (edge_to e')")
  case None
  then have "edge_to e' \<notin> dom (distances (relax_edge m c st e))"
    unfolding relax_edge_dom by auto
  then show ?thesis by (auto simp: fin_edge_def)
next
  case (Some d)
  from relax_edge_mono[OF this, of m c e] obtain d' where
    "distances (relax_edge m c st e) (edge_to e') = Some d'" "d' \<le> d" by auto
  with assms Some show ?thesis by (auto simp: fin_edge_def)
qed

lemma fin_edge_establish:
  assumes inv: "inv_s g m s st" and cv: "c \<in> visited st"
  shows "fin_edge (relax_edge m c st e) e"
proof (cases "edge_to e \<in> visited st")
  case True
  with inv_sD(8)[OF inv True] show ?thesis
    by (simp add: fin_edge_def relax_edge_frame)
next
  case nv: False
  from inv_sD(1)[OF inv] cv inv_sD(3)[OF inv] obtain dc where dc: "distances st c = Some dc"
    by blast
  with inv_sD(8)[OF inv cv] obtain a where a: "dc = Finite a" by (cases dc) auto
  show ?thesis
  proof (cases "distances st (edge_to e)")
    case None
    then have "edge_to e \<notin> dom (distances (relax_edge m c st e))"
      unfolding relax_edge_dom by auto
    then show ?thesis by (auto simp: fin_edge_def)
  next
    case (Some dt)
    from relax_edge_establish[OF dc Some nv, of m] a show ?thesis
      by (auto simp: fin_edge_def)
  qed
qed

lemma relax_edges_mid_s:
  assumes inv: "inv_s g m s st" and sv: "s \<in> visited st" and cv: "c \<in> visited st"
    and sub: "set es \<subseteq> set (edge_list g c)"
    and X: "\<forall>u\<in>X. \<forall>e\<in>set (edge_list g u). fin_edge st e"
  shows "inv_s g m s (relax_edges m c st es) \<and>
     (\<forall>u\<in>X. \<forall>e\<in>set (edge_list g u). fin_edge (relax_edges m c st es) e) \<and>
     (\<forall>e\<in>set es. fin_edge (relax_edges m c st es) e)"
  using sub
proof (induction es rule: rev_induct)
  case Nil
  with inv X show ?case by simp
next
  case (snoc e es)
  let ?st1 = "relax_edges m c st es"
  from snoc have IH: "inv_s g m s ?st1"
    "\<forall>u\<in>X. \<forall>e\<in>set (edge_list g u). fin_edge ?st1 e"
    "\<forall>e\<in>set es. fin_edge ?st1 e" and e: "e \<in> set (edge_list g c)" by auto
  have sv1: "s \<in> visited ?st1" and cv1: "c \<in> visited ?st1" using sv cv by simp_all
  have "inv_s g m s (relax_edge m c ?st1 e)"
    using IH(1) sv1 cv1 e by (rule inv_s_relax_edge)
  moreover have "fin_edge (relax_edge m c ?st1 e) e"
    using IH(1) cv1 by (rule fin_edge_establish)
  ultimately show ?case
    using IH(2,3) by (auto simp: relax_edges_snoc intro: fin_edge_stable)
qed

definition head_s :: "Router \<Rightarrow> Mode \<Rightarrow> string \<Rightarrow> string \<Rightarrow> search_state \<Rightarrow> bool" where
  "head_s g m s t st =
     (inv_s g m s st \<and> t \<notin> visited st \<and>
      (\<forall>u\<in>visited st. \<forall>e\<in>set (edge_list g u). fin_edge st e))"

lemma head_s_init: "has_node g s \<Longrightarrow> head_s g m s t (init_state g s)"
  by (simp add: head_s_def inv_s_init) (simp add: init_state_def)

lemma head_s_step:
  assumes h: "head_s g m s t st"
    and scan: "scan_min (distances st) (unvisited st) (None, Infinity) = (Some c, Finite d)"
    and ct: "c \<noteq> t"
  shows "head_s g m s t (relax_edges m c (mark_visited c st) (edge_list g c))"
proof -
  let ?st1 = "mark_visited c st"
  from h have inv: "inv_s g m s st" and tv: "t \<notin> visited st"
    and fin: "\<forall>u\<in>visited st. \<forall>e\<in>set (edge_list g u). fin_edge st e"
    by (simp_all add: head_s_def)
  have fin1: "\<forall>u\<in>visited st. \<forall>e\<in>set (edge_list g u). fin_edge ?st1 e"
    using fin by (simp add: fin_edge_def)
  from relax_edges_mid_s[OF inv_s_mark[OF inv scan] _ subset_refl fin1, of c]
  show ?thesis using tv ct by (auto simp: head_s_def)
qed

subsection \<open>Minimality under non-negative weights\<close>

definition settled :: "Mode \<Rightarrow> search_state \<Rightarrow> string \<Rightarrow> GraphEdge \<Rightarrow> bool" where
  "settled m st u e =
     (\<forall>du dv. distances st u = Some du \<longrightarrow> distances st (edge_to e) = Some dv \<longrightarrow>
        dv \<le> add_weight du (weight m e))"

definition below :: "search_state \<Rightarrow> bool" where
  "below st =
     (\<forall>u\<in>visited st. \<forall>x\<in>set (unvisited st). \<forall>du dx.
        distances st u = Some du \<longrightarrow> distances st x = Some dx \<longrightarrow> du \<le> dx)"

definition below_cur :: "string \<Rightarrow> search_state \<Rightarrow> bool" where
  "below_cur c st =
     (\<forall>u\<in>visited st. \<forall>du dc.
        distances st u = Some du \<longrightarrow> distances st c = Some dc \<longrightarrow> du \<le> dc)"

definition head_o :: "Router \<Rightarrow> Mode \<Rightarrow> search_state \<Rightarrow> bool" where
  "head_o g m st =
     (below st \<and> (\<forall>u\<in>visited st. \<forall>e\<in>set (edge_list g u). settled m st u e))"

lemma nonnegD:
  "nonneg g m \<Longrightarrow> k \<in> set (node_keys g) \<Longrightarrow> e \<in> set (edge_list g k) \<Longrightarrow>
     edge_to e \<in> set (node_keys g) \<Longrightarrow> 0 \<le> weight m e"
  by (auto simp: nonneg_def list_all_iff has_node_iff)

lemma relax_edge_mono_rev:
  assumes "distances (relax_edge m c st e) x = Some d'"
  shows "\<exists>d. distances st x = Some d \<and> d' \<le> d"
proof -
  from assms have "x \<in> dom (distances st)" using relax_edge_dom[of m c st e] by auto
  then obtain d where d: "distances st x = Some d" by auto
  from relax_edge_mono[OF this, of m c e] assms d show ?thesis by auto
qed

lemma below_cur_relax_edge:
  "below_cur c st \<Longrightarrow> c \<in> visited st \<Longrightarrow> below_cur c (relax_edge m c st e)"
  by (simp add: below_cur_def relax_edge_frame)

lemma settled_stable:
  assumes "settled m st u e'" and "u \<in> visited st"
  shows "settled m (relax_edge m c st e) u e'"
  unfolding settled_def
proof (intro allI impI)
  fix du dv
  assume "distances (relax_edge m c st e) u = Some du"
    and dv: "distances (relax_edge m c st e) (edge_to e') = Some dv"
  then have du: "distances st u = Some du" using assms(2) by (simp add: relax_edge_frame)
  from relax_edge_mono_rev[OF dv] obtain d where "distances st (edge_to e') = Some d" "dv \<le> d"
    by auto
  with assms(1) du show "dv \<le> add_weight du (weight m e')"
    by (auto simp: settled_def)
qed

lemma settled_establish:
  assumes inv: "inv_s g m s st" and nn: "nonneg g m" and cv: "c \<in> visited st"
    and e: "e \<in> set (edge_list g c)" and bc: "below_cur c st"
  shows "settled m (relax_edge m c st e) c e"
  unfolding settled_def
proof (intro allI impI)
  fix du dv
  let ?st' = "relax_edge m c st e"
  assume "distances ?st' c = Some du" and dv: "distances ?st' (edge_to e) = Some dv"
  then have du: "distances st c = Some du" using cv by (simp add: relax_edge_frame)
  have cK: "c \<in> set (node_keys g)" using inv_sD(3)[OF inv] cv by auto
  from relax_edge_mono_rev[OF dv] obtain dt where dt: "distances st (edge_to e) = Some dt"
    by auto
  then have vK: "edge_to e \<in> set (node_keys g)" using inv_sD(1)[OF inv] by auto
  have w: "0 \<le> weight m e" using nn cK e vK by (rule nonnegD)
  show "dv \<le> add_weight du (weight m e)"
  proof (cases "edge_to e \<in> visited st")
    case True
    then have "distances st (edge_to e) = Some dv" using dv by (simp add: relax_edge_frame)
    with bc True du have "dv \<le> du" by (auto simp: below_cur_def)
    also have "du \<le> add_weight du (weight m e)" using w by (rule add_weight_nonneg)
    finally show ?thesis .
  next
    case False
    from relax_edge_establish[OF du dt False, of m] dv show ?thesis by auto
  qed
qed

lemma below_relax_edge:
  assumes inv: "inv_s g m s st" and nn: "nonneg g m" and cv: "c \<in> visited st"
    and e: "e \<in> set (edge_list g c)" and bc: "below_cur c st" and b: "below st"
  shows "below (relax_edge m c st e)"
proof (cases rule: relax_edge_cases[of m c st e])
  case same
  with b show ?thesis by simp
next
  case (upd dc dt)
  let ?v = "edge_to e"
  have cK: "c \<in> set (node_keys g)" using inv_sD(3)[OF inv] cv by auto
  have vK: "?v \<in> set (node_keys g)" using inv_sD(1)[OF inv] upd(3) by auto
  have w: "0 \<le> weight m e" using nn cK e vK by (rule nonnegD)
  show ?thesis
    unfolding below_def
  proof (intro ballI allI impI)
    fix u x du dx
    assume u: "u \<in> visited (relax_edge m c st e)"
      and x: "x \<in> set (unvisited (relax_edge m c st e))"
      and du': "distances (relax_edge m c st e) u = Some du"
      and dx': "distances (relax_edge m c st e) x = Some dx"
    from u have uv: "u \<in> visited st" by simp
    from x have xu: "x \<in> set (unvisited st)" by simp
    from du' uv have du: "distances st u = Some du" by (simp add: relax_edge_frame)
    show "du \<le> dx"
    proof (cases "x = ?v")
      case True
      with dx' upd(5) have "dx = add_weight dc (weight m e)" by simp
      moreover have "du \<le> dc" using bc uv du upd(2) by (auto simp: below_cur_def)
      moreover have "dc \<le> add_weight dc (weight m e)" using w by (rule add_weight_nonneg)
      ultimately show ?thesis by simp
    next
      case False
      with dx' upd(5) have "distances st x = Some dx" by simp
      with b uv xu du show ?thesis by (auto simp: below_def)
    qed
  qed
qed

lemma relax_edges_mid_o:
  assumes inv: "inv_s g m s st" and sv: "s \<in> visited st" and cv: "c \<in> visited st"
    and nn: "nonneg g m"
    and sub: "set es \<subseteq> set (edge_list g c)"
    and bc: "below_cur c st" and b: "below st"
    and X: "\<forall>u\<in>X. \<forall>e\<in>set (edge_list g u). settled m st u e" and XV: "X \<subseteq> visited st"
  shows "below_cur c (relax_edges m c st es) \<and> below (relax_edges m c st es) \<and>
     (\<forall>u\<in>X. \<forall>e\<in>set (edge_list g u). settled m (relax_edges m c st es) u e) \<and>
     (\<forall>e\<in>set es. settled m (relax_edges m c st es) c e)"
  using sub
proof (induction es rule: rev_induct)
  case Nil
  with bc b X show ?case by simp
next
  case (snoc e es)
  let ?st1 = "relax_edges m c st es"
  from snoc have IH: "below_cur c ?st1" "below ?st1"
    "\<forall>u\<in>X. \<forall>e\<in>set (edge_list g u). settled m ?st1 u e"
    "\<forall>e\<in>set es. settled m ?st1 c e"
    and e: "e \<in> set (edge_list g c)" and sub': "set es \<subseteq> set (edge_list g c)" by auto
  have cv1: "c \<in> visited ?st1" and XV1: "X \<subseteq> visited ?st1" using cv XV by simp_all
  have inv1: "inv_s g m s ?st1"
    using relax_edges_mid_s[OF inv sv cv sub', of "{}"] by simp
  have 1: "below_cur c (relax_edge m c ?st1 e)"
    using IH(1) cv1 by (rule below_cur_relax_edge)
  have 2: "below (relax_edge m c ?st1 e)"
    using inv1 nn cv1 e IH(1,2) by (rule below_relax_edge)
  have 3: "settled m (relax_edge m c ?st1 e) c e"
    using inv1 nn cv1 e IH(1) by (rule settled_establish)
  have 4: "settled m (relax_edge m c ?st1 e) u e'" if "u \<in> X" "e' \<in> set (edge_list g u)" for u e'
    using IH(3) that XV1 by (intro settled_stable) auto
  have 5: "settled m (relax_edge m c ?st1 e) c e'" if "e' \<in> set es" for e'
    using IH(4) that cv1 by (intro settled_stable) auto
  show ?case
    unfolding relax_edges_snoc using 1 2 3 4 5 by auto
qed

lemma head_o_init: "head_o g m (init_state g s)"
  by (simp add: head_o_def below_def init_state_def)

lemma head_o_step:
  assumes h: "head_s g m s t st" and o: "head_o g m st" and nn: "nonneg g m"
    and scan: "scan_min (distances st) (unvisited st) (None, Infinity) = (Some c, Finite d)"
  shows "head_o g m (relax_edges m c (mark_visited c st) (edge_list g c))"
proof -
  let ?st1 = "mark_visited c st"
  from h have inv: "inv_s g m s st" by (simp add: head_s_def)
  note cU = scan_min_found(1)[OF scan] and Dc = scan_min_found(2)[OF scan]
    and cmin = scan_min_found(3)[OF scan]
  from o have b: "below st" and st: "\<forall>u\<in>visited st. \<forall>e\<in>set (edge_list g u). settled m st u e"
    by (simp_all add: head_o_def)
  have b1: "below ?st1"
    unfolding below_def using b cmin Dc by (auto simp: below_def)
  have bc1: "below_cur c ?st1"
    unfolding below_cur_def using b cU Dc by (auto simp: below_def)
  have st1: "\<forall>u\<in>visited st. \<forall>e\<in>set (edge_list g u). settled m ?st1 u e"
    using st by (simp add: settled_def)
  have cv1: "c \<in> visited ?st1" by simp
  have XV: "visited st \<subseteq> visited ?st1" by auto
  from relax_edges_mid_o[OF inv_s_mark[OF inv scan] cv1 nn subset_refl bc1 b1 st1 XV]
  show ?thesis by (auto simp: head_o_def)
qed

lemma walk_bound:
  assumes inv: "inv_s g m s st" and o: "head_o g m st" and nn: "nonneg g m"
  shows "is_walk g s es x \<Longrightarrow>
     \<exists>y dy. distances st y = Some dy \<and> dy \<le> Finite (path_weight m es) \<and>
       (y = x \<or> y \<in> set (unvisited st))"
proof (induction es arbitrary: x rule: rev_induct)
  case Nil
  then have "x = s" by simp
  with inv_sD(5)[OF inv] show ?case by (intro exI[of _ s] exI[of _ "Finite 0"]) simp
next
  case (snoc e es)
  from snoc.prems obtain u where u: "is_walk g s es u" "e \<in> set (edge_list g u)"
    "edge_to e = x" "has_node g x" by (auto simp: is_walk_snoc)
  from is_walk_has_node[OF u(1)] have uK: "u \<in> set (node_keys g)" by (simp add: has_node_iff)
  have xK: "x \<in> set (node_keys g)" using u(4) by (simp add: has_node_iff)
  have w: "0 \<le> weight m e" using nn uK u(2) xK[folded u(3)] by (rule nonnegD)
  from snoc.IH[OF u(1)] obtain y dy where y: "distances st y = Some dy"
    "dy \<le> Finite (path_weight m es)" "y = u \<or> y \<in> set (unvisited st)" by auto
  show ?case
  proof (cases "y \<in> set (unvisited st)")
    case True
    have "dy \<le> Finite (path_weight m (es @ [e]))"
      using y(2) w by (cases dy) auto
    with y(1) True show ?thesis by blast
  next
    case False
    with y(3) have yu: "y = u" by simp
    with False uK inv_sD(3)[OF inv] have uv: "u \<in> visited st" by auto
    from xK inv_sD(1)[OF inv] obtain dx where dx: "distances st x = Some dx" by auto
    from o uv u(2) have "settled m st u e" by (simp add: head_o_def)
    with y(1) yu dx u(3) have "dx \<le> add_weight dy (weight m e)" by (auto simp: settled_def)
    also have "\<dots> \<le> add_weight (Finite (path_weight m es)) (weight m e)"
      using y(2) by (rule add_weight_mono)
    finally have "dx \<le> Finite (path_weight m (es @ [e]))" by simp
    with dx show ?thesis by blast
  qed
qed

lemma walk_visited:
  assumes h: "head_s g m s t st" and stuck: "stuck st"
  shows "is_walk g s es x \<Longrightarrow> x \<in> visited st"
proof (induction es arbitrary: x rule: rev_induct)
  case Nil
  from h have inv: "inv_s g m s st" by (simp add: head_s_def)
  from Nil have "x = s" by simp
  moreover have "s \<notin> set (unvisited st)"
    using stuck_all_infinite[OF stuck _ inv_sD(5)[OF inv]] by auto
  moreover have "s \<in> set (node_keys g)" using inv_sD(1,5)[OF inv] by auto
  ultimately show ?case using inv_sD(3)[OF inv] by auto
next
  case (snoc e es)
  from h have inv: "inv_s g m s st"
    and fin: "\<forall>u\<in>visited st. \<forall>e\<in>set (edge_list g u). fin_edge st e"
    by (simp_all add: head_s_def)
  from snoc.prems obtain u where u: "is_walk g s es u" "e \<in> set (edge_list g u)"
    "edge_to e = x" "has_node g x" by (auto simp: is_walk_snoc)
  from snoc.IH[OF u(1)] fin u(2,3) have nf: "distances st x \<noteq> Some Infinity"
    by (auto simp: fin_edge_def)
  have xK: "x \<in> set (node_keys g)" using u(4) by (simp add: has_node_iff)
  then obtain dx where dx: "distances st x = Some dx" using inv_sD(1)[OF inv] by auto
  have "x \<notin> set (unvisited st)"
    using stuck_all_infinite[OF stuck _ dx] nf dx by auto
  with xK inv_sD(3)[OF inv] show ?case by auto
qed

lemma search_result:
  fixes m :: Mode
  assumes s: "has_node g s" and t: "has_node g t"
  defines "P \<equiv> previous (dijkstra_loop g m t (init_state g s))"
  shows "(reconstruct P (Some t) [] = Some [t] \<and> t \<noteq> s \<and> (\<forall>es. \<not> is_walk g s es t)) \<or>
     (\<exists>es. is_walk g s es t \<and> reconstruct P (Some t) [] = Some (s # map edge_to es) \<and>
        (nonneg g m \<longrightarrow> (\<forall>es'. is_walk g s es' t \<longrightarrow> path_weight m es \<le> path_weight m es')))"
proof -
  let ?I = "\<lambda>st. head_s g m s t st \<and> (nonneg g m \<longrightarrow> head_o g m st)"
  have init: "?I (init_state g s)"
    using s by (simp add: head_s_init head_o_init)
  have "\<exists>st'. ?I st' \<and>
     ((stuck st' \<and> dijkstra_loop g m t (init_state g s) = st') \<or>
      (\<exists>d. scan_min (distances st') (unvisited st') (None, Infinity) = (Some t, Finite d) \<and>
           dijkstra_loop g m t (init_state g s) = mark_visited t st'))"
  proof (rule dijkstra_loop_rule[where I = ?I])
    show "?I (init_state g s)" by (rule init)
  next
    fix st c d
    assume "?I st" "scan_min (distances st) (unvisited st) (None, Infinity) = (Some c, Finite d)"
      "c \<noteq> t"
    then show "?I (relax_edges m c (mark_visited c st) (edge_list g c))"
      using head_s_step[of g m s t st c d] head_o_step[of g m s t st c d] by blast
  qed
  then obtain st' where h: "head_s g m s t st'" and o: "nonneg g m \<longrightarrow> head_o g m st'"
    and alt: "(stuck st' \<and> dijkstra_loop g m t (init_state g s) = st') \<or>
      (\<exists>d. scan_min (distances st') (unvisited st') (None, Infinity) = (Some t, Finite d) \<and>
           dijkstra_loop g m t (init_state g s) = mark_visited t st')"
    by blast
  from h have inv: "inv_s g m s st'" and tv: "t \<notin> visited st'" by (simp_all add: head_s_def)
  have tK: "t \<in> set (node_keys g)" using t by (simp add: has_node_iff)
  from alt show ?thesis
  proof
    assume a: "stuck st' \<and> dijkstra_loop g m t (init_state g s) = st'"
    then have P: "P = previous st'" by (simp add: P_def)
    from tK tv inv_sD(3)[OF inv] have tU: "t \<in> set (unvisited st')" by auto
    from tK inv_sD(1)[OF inv] obtain dt where dt: "distances st' t = Some dt" by auto
    from stuck_all_infinite[OF _ tU dt] a have "dt = Infinity" by simp
    with dt have Dt: "distances st' t = Some Infinity" by simp
    from inv_sD(9)[OF inv Dt] have "reconstruct P (Some t) [] = Some [t]"
      unfolding P by (subst reconstruct.simps, simp, subst reconstruct.simps, simp)
    moreover have "t \<noteq> s" using Dt inv_sD(5)[OF inv] by auto
    moreover have "\<not> is_walk g s es t" for es
      using walk_visited[OF h, of es t] a tv by auto
    ultimately show ?thesis by blast
  next
    assume "\<exists>d. scan_min (distances st') (unvisited st') (None, Infinity) = (Some t, Finite d) \<and>
           dijkstra_loop g m t (init_state g s) = mark_visited t st'"
    then obtain d where scan: "scan_min (distances st') (unvisited st') (None, Infinity) =
        (Some t, Finite d)" and fin: "dijkstra_loop g m t (init_state g s) = mark_visited t st'"
      by blast
    from fin have P: "P = previous st'" by (simp add: P_def)
    note tU = scan_min_found(1)[OF scan] and Dt = scan_min_found(2)[OF scan]
      and tmin = scan_min_found(3)[OF scan]
    from inv_sD(10)[OF inv Dt] obtain es where es:
      "tree_walk g (previous st') (visited st') s es t" "path_weight m es = d" by auto
    have w: "is_walk g s es t" using es(1) by (rule tree_walk_is_walk)
    have r: "reconstruct P (Some t) [] = Some (s # map edge_to es)"
      unfolding P using tree_walk_reconstruct[OF es(1), of "[]"] by simp
    have opt: "path_weight m es \<le> path_weight m es'" if nn: "nonneg g m" and w': "is_walk g s es' t"
      for es'
    proof -
      from o nn have ho: "head_o g m st'" by simp
      from walk_bound[OF inv ho nn w'] obtain y dy where y: "distances st' y = Some dy"
        "dy \<le> Finite (path_weight m es')" "y = t \<or> y \<in> set (unvisited st')" by auto
      from y(3) tU have "y \<in> set (unvisited st')" by auto
      from tmin[OF this y(1)] y(2) have "Finite d \<le> Finite (path_weight m es')"
        by (rule order_trans)
      then show ?thesis using es(2) by simp
    qed
    from w r opt show ?thesis by blast
  qed
qed

subsection \<open>The route record\<close>

lemma build_loop_totals:
  "build_loop g p td tt tc cs ss = Inr (td', tt', tc', cs', ss') \<Longrightarrow>
     td' = td + sum_list (map distance (route_edges g p)) \<and>
     tt' = tt + sum_list (map (\<lambda>e. time e * trafficFactor e) (route_edges g p)) \<and>
     tc' = tc + sum_list (map (\<lambda>e. cost e + tollCost e) (route_edges g p))"
proof (induction g p td tt tc cs ss rule: build_loop.induct)
  case (1 g fromId toId rest td tt tc cs ss)
  from "1.prems" obtain fromNode where fn: "map_of (nodes g) fromId = Some fromNode"
    by (auto split: option.splits)
  show ?case
  proof (cases "find (\<lambda>e. edge_to e = toId) (edge_list g fromId)")
    case None
    with "1.prems" fn "1.IH"(1)[OF fn None] show ?thesis by simp
  next
    case (Some edge)
    with "1.prems" fn obtain toNode where tn: "map_of (nodes g) toId = Some toNode"
      by (auto split: option.splits)
    with "1.prems" fn Some "1.IH"(2)[OF fn Some tn] show ?thesis by simp
  qed
qed simp_all

lemma build_loop_ok:
  "\<forall>x\<in>set p. has_node g x \<Longrightarrow> \<exists>res. build_loop g p td tt tc cs ss = Inr res"
proof (induction g p td tt tc cs ss rule: build_loop.induct)
  case (1 g fromId toId rest td tt tc cs ss)
  from "1.prems" obtain fromNode toNode where fn: "map_of (nodes g) fromId = Some fromNode"
    and tn: "map_of (nodes g) toId = Some toNode" by (auto simp: has_node_def)
  from "1.prems" have rest: "\<forall>x\<in>set (toId # rest). has_node g x" by simp
  show ?case
  proof (cases "find (\<lambda>e. edge_to e = toId) (edge_list g fromId)")
    case None
    with fn "1.IH"(1)[OF fn None rest] show ?thesis by simp
  next
    case (Some edge)
    with fn tn "1.IH"(2)[OF fn Some tn rest] show ?thesis by simp
  qed
qed simp_all

lemma buildRouteResult_ok:
  assumes "\<forall>x\<in>set p. has_node g x"
  shows "\<exists>r. buildRouteResult g p = Inr r"
proof -
  from build_loop_ok[OF assms, of 0 0 0 "[]" "[]"] obtain td tt tc cs ss
    where bl: "build_loop g p 0 0 0 [] [] = Inr (td, tt, tc, cs, ss)"
    by (metis prod_cases5)
  show ?thesis
  proof (cases "p = []")
    case True
    with bl show ?thesis by (simp add: buildRouteResult_def)
  next
    case False
    then have "has_node g (last p)" using assms by simp
    then obtain n where "map_of (nodes g) (last p) = Some n" by (auto simp: has_node_def)
    with bl False show ?thesis by (simp add: buildRouteResult_def)
  qed
qed

lemma buildRouteResult_fields:
  assumes "buildRouteResult g p = Inr r"
  shows "path r = p"
    and "totalDistance r = math_round (sum_list (map distance (route_edges g p)))"
    and "totalTime r = math_round (sum_list (map (\<lambda>e. time e * trafficFactor e) (route_edges g p)))"
    and "totalCost r = math_round (sum_list (map (\<lambda>e. cost e + tollCost e) (route_edges g p)))"
proof -
  from assms obtain td tt tc cs ss
    where bl: "build_loop g p 0 0 0 [] [] = Inr (td, tt, tc, cs, ss)"
    by (auto simp: buildRouteResult_def split: sum.splits)
  note tot = build_loop_totals[OF bl]
  from assms bl have r: "path r = p \<and> totalDistance r = math_round td \<and>
      totalTime r = math_round tt \<and> totalCost r = math_round tc"
    by (auto simp: buildRouteResult_def split: if_splits option.splits)
  from r show "path r = p" by simp
  from r tot show "totalDistance r = math_round (sum_list (map distance (route_edges g p)))"
    by simp
  from r tot show
    "totalTime r = math_round (sum_list (map (\<lambda>e. time e * trafficFactor e) (route_edges g p)))"
    by simp
  from r tot show
    "totalCost r = math_round (sum_list (map (\<lambda>e. cost e + tollCost e) (route_edges g p)))"
    by simp
qed



lemma is_walk_nodes: "is_walk g u es v \<Longrightarrow> \<forall>x\<in>set (u # map edge_to es). has_node g x"
  by (induction es arbitrary: u) auto


lemma findShortestPath_absent:
  "\<not> has_node g s \<or> \<not> has_node g t \<Longrightarrow> findShortestPath g s t m = Inr None"
  by (auto simp: findShortestPath_def)

lemma findShortestPath_result:
  fixes m :: Mode
  assumes s: "has_node g s" and t: "has_node g t"
  shows "(findShortestPath g s t m = Inr None \<and> (\<forall>es. \<not> is_walk g s es t)) \<or>
     (\<exists>es r. is_walk g s es t \<and> findShortestPath g s t m = Inr (Some r) \<and>
        buildRouteResult g (s # map edge_to es) = Inr r \<and>
        (nonneg g m \<longrightarrow> (\<forall>es'. is_walk g s es' t \<longrightarrow> path_weight m es \<le> path_weight m es')))"
proof -
  let ?P = "previous (dijkstra_loop g m t (init_state g s))"
  from search_result[OF s t, of m] show ?thesis
  proof
    assume a: "reconstruct ?P (Some t) [] = Some [t] \<and> t \<noteq> s \<and> (\<forall>es. \<not> is_walk g s es t)"
    then have "findShortestPath g s t m = Inr None"
      using s t by (simp add: findShortestPath_def Let_def)
    with a show ?thesis by blast
  next
    assume "\<exists>es. is_walk g s es t \<and> reconstruct ?P (Some t) [] = Some (s # map edge_to es) \<and>
        (nonneg g m \<longrightarrow> (\<forall>es'. is_walk g s es' t \<longrightarrow> path_weight m es \<le> path_weight m es'))"
    then obtain es where w: "is_walk g s es t"
      and r: "reconstruct ?P (Some t) [] = Some (s # map edge_to es)"
      and opt: "nonneg g m \<longrightarrow> (\<forall>es'. is_walk g s es' t \<longrightarrow> path_weight m es \<le> path_weight m es')"
      by blast
    from buildRouteResult_ok[OF is_walk_nodes[OF w]] obtain res
      where res: "buildRouteResult g (s # map edge_to es) = Inr res" by blast
    have "findShortestPath g s t m = Inr (Some res)"
      using s t r res by (simp add: findShortestPath_def Let_def)
    with w res opt show ?thesis by blast
  qed
qed


lemma route_totals:
  assumes "findShortestPath g s t m = Inr (Some r)"
  shows "totalDistance r = math_round (sum_list (map distance (route_edges g (path r))))"
    and "totalTime r = math_round (sum_list (map effectiveTime (route_edges g (path r))))"
    and "totalCost r = math_round (sum_list (map fullCost (route_edges g (path r))))"
    and "\<exists>es. is_walk g s es t \<and> path r = s # map edge_to es"
proof -
  from assms have st: "has_node g s" "has_node g t"
    by (auto simp: findShortestPath_def split: if_splits)
  from findShortestPath_result[OF st, of m] assms obtain es where
    w: "is_walk g s es t" and b: "buildRouteResult g (s # map edge_to es) = Inr r" by auto
  note f = buildRouteResult_fields[OF b]
  from f(1) w show "\<exists>es. is_walk g s es t \<and> path r = s # map edge_to es" by auto
  from f show "totalDistance r = math_round (sum_list (map distance (route_edges g (path r))))"
    by simp
  have e1: "effectiveTime = (\<lambda>e. time e * trafficFactor e)"
    and e2: "fullCost = (\<lambda>e. cost e + tollCost e)"
    by (auto simp: effectiveTime_def fullCost_def)
  from f show "totalTime r = math_round (sum_list (map effectiveTime (route_edges g (path r))))"
    unfolding e1 by simp
  from f show "totalCost r = math_round (sum_list (map fullCost (route_edges g (path r))))"
    unfolding e2 by simp
qed

lemma findShortestPath_total: "\<exists>res. findShortestPath g s t m = Inr res"
proof (cases "has_node g s \<and> has_node g t")
  case True
  with findShortestPath_result[of g s t m] show ?thesis by blast
next
  case False
  with findShortestPath_absent[of g s t m] show ?thesis by auto
qed



subsection \<open>Concrete runs\<close>

declare reconstruct.simps [code]

lemma projected_result:
  "map_sum id (map_option f) x = Inr (Some v) \<Longrightarrow> \<exists>r. x = Inr (Some r) \<and> f r = v"
  by (cases x) auto


lemma handBuilt_distance_route:
  "map_sum id (map_option path) (findShortestPath handBuilt ''a'' ''b'' ModeDistance) =
     Inr (Some [''a'', ''b''])"
  by code_simp


lemma handBuilt_nodes: "has_node handBuilt ''a''" "has_node handBuilt ''b''"
  "\<not> has_node handBuilt ''ghost''"
  by code_simp+







section \<open>Dynamic nodes and symmetry\<close>

subsection \<open>Great-circle distances on the equator\<close>

lemma atan2_sin_cos:
  assumes "0 \<le> x" "x < pi / 2"
  shows "atan2 (sin x) (cos x) = x"
proof -
  have c: "0 < cos x" using assms by (intro cos_gt_zero_pi) auto
  have "arctan (sin x / cos x) = x"
    using arctan_tan[of x] assms by (simp add: tan_def)
  with c show ?thesis by (simp add: atan2_def)
qed

lemma haversine_equator:
  assumes "0 \<le> d" "d < 180"
  shows "calculateHaversineDistance 0 0 0 d = 6371 * (d * pi / 180)"
proof -
  define x where "x = d * pi / 180 / 2"
  have x0: "0 \<le> x" using assms by (simp add: x_def)
  have "d * pi < 180 * pi" using assms pi_gt_zero by simp
  then have x1: "x < pi / 2" by (simp add: x_def)
  have x2: "- (pi / 2) \<le> x" "x \<le> pi / 2" "x \<le> pi" using x0 x1 pi_gt_zero by linarith+
  have s: "0 \<le> sin x" using x0 x2(3) by (rule sin_ge_zero)
  have c: "0 \<le> cos x" using x2(1,2) by (rule cos_ge_zero)
  have a: "sqrt (sin x * sin x) = sin x" using s by simp
  have "1 - sin x * sin x = cos x * cos x"
    using sin_cos_squared_add[of x] by (simp add: power2_eq_square algebra_simps)
  then have b: "sqrt (1 - sin x * sin x) = cos x" using c by simp
  have "calculateHaversineDistance 0 0 0 d = 6371 * (2 * atan2 (sqrt (sin x * sin x)) (sqrt (1 - sin x * sin x)))"
    by (simp add: calculateHaversineDistance_def Let_def x_def)
  also have "\<dots> = 6371 * (2 * x)"
    unfolding a b atan2_sin_cos[OF x0 x1] ..
  also have "\<dots> = 6371 * (d * pi / 180)" by (simp add: x_def)
  finally show ?thesis .
qed

lemma equator_half: "calculateHaversineDistance 0 0 0 (1 / 2) = 6371 * pi / 360"
  using haversine_equator[of "1 / 2"] by simp

lemma equator_two: "calculateHaversineDistance 0 0 0 2 = 6371 * pi / 90"
  using haversine_equator[of 2] by simp

lemma equator_bounds: "6371 * pi / 360 < 100" "\<not> 6371 * pi / 90 < 100" "0 < 6371 * pi / 360"
  "6371 * pi < 36000" "\<not> 6371 * pi < 9000"
  using pi_less_4 pi_ge_two by simp_all

subsection \<open>The adjacency lists after an insertion\<close>

text \<open>\<open>linked newNode cs k\<close>: the edges that connecting \<open>newNode\<close> to the candidates \<open>cs\<close>
  appends to the adjacency list of \<open>k\<close>.\<close>

definition linked :: "GraphNode \<Rightarrow> (GraphNode \<times> real) list \<Rightarrow> string \<Rightarrow> GraphEdge list" where
  "linked newNode cs k =
     concat (map (\<lambda>(node, d).
                    (if k = node_id newNode then [dynamicEdge newNode node d] else []) @
                    (if k = node_id node then [backEdge newNode node d] else [])) cs)"

lemma edge_list_addEdge:
  "edge_list (addEdge g e) k = (if k = edge_from e then edge_list g k @ [e] else edge_list g k)"
  by (cases "map_of (edges g) (edge_from e)")
    (simp_all add: addEdge_def edge_list_def update_conv')

lemma nodes_addEdge [simp]: "nodes (addEdge g e) = nodes g"
  by (cases "map_of (edges g) (edge_from e)") (simp_all add: addEdge_def update_conv')

lemma edge_list_addNode:
  "edge_list (addNode g n) k = (if k = node_id n then [] else edge_list g k)"
  by (simp add: addNode_def edge_list_def update_conv')

lemma nodes_addNode [simp]: "nodes (addNode g n) = AList.update (node_id n) n (nodes g)"
  by (simp add: addNode_def)

lemma edge_list_connect:
  "edge_list (foldl (\<lambda>g' (node, d).
       addEdge (addEdge g' (dynamicEdge n node d)) (backEdge n node d)) g cs) k =
     edge_list g k @ linked n cs k"
proof (induction cs arbitrary: g)
  case Nil
  then show ?case by (simp add: linked_def)
next
  case (Cons c cs)
  obtain node d where c: "c = (node, d)" by (cases c)
  have f: "edge_from (dynamicEdge n node d) = node_id n" "edge_from (backEdge n node d) = node_id node"
    by (simp_all add: dynamicEdge_def backEdge_def)
  show ?case
    unfolding c using Cons.IH[of "addEdge (addEdge g (dynamicEdge n node d)) (backEdge n node d)"]
    by (simp add: edge_list_addEdge f linked_def)
qed

lemma nodes_connect:
  "nodes (foldl (\<lambda>g' (node, d).
       addEdge (addEdge g' (dynamicEdge n node d)) (backEdge n node d)) g cs) = nodes g"
  by (induction cs arbitrary: g) (auto simp: case_prod_beta)

lemma edge_list_addDynamicNode:
  "edge_list (addDynamicNode g n) k =
     (if k = node_id n then [] else edge_list g k) @ linked n (nearestThree (addNode g n) n) k"
  by (simp add: addDynamicNode_def connectToNearestNodes_def edge_list_connect edge_list_addNode)

lemma nodes_addDynamicNode:
  "nodes (addDynamicNode g n) = AList.update (node_id n) n (nodes g)"
  by (simp add: addDynamicNode_def connectToNearestNodes_def nodes_connect)

lemma linked_cases:
  assumes "e \<in> set (linked n cs k)"
  obtains node d where "(node, d) \<in> set cs" "k = node_id n" "e = dynamicEdge n node d"
  | node d where "(node, d) \<in> set cs" "k = node_id node" "e = backEdge n node d"
  using assms by (auto simp: linked_def split: if_splits)

lemma linked_forward:
  "(node, d) \<in> set cs \<Longrightarrow> dynamicEdge n node d \<in> set (linked n cs (node_id n))"
  by (force simp: linked_def)

lemma linked_back:
  "(node, d) \<in> set cs \<Longrightarrow> backEdge n node d \<in> set (linked n cs (node_id node))"
  by (force simp: linked_def)

lemma reverse_dynamicEdge: "reverseEdge (dynamicEdge n node d) = backEdge n node d"
  by (simp add: reverseEdge_def backEdge_def dynamicEdge_def)

lemma reverse_backEdge: "reverseEdge (backEdge n node d) = dynamicEdge n node d"
  by (simp add: reverseEdge_def backEdge_def dynamicEdge_def)

lemma symmetric_iff:
  "symmetric g = (\<forall>k. \<forall>e\<in>set (edge_list g k). reverseEdge e \<in> set (edge_list g (edge_to e)))"
proof
  assume s: "symmetric g"
  show "\<forall>k. \<forall>e\<in>set (edge_list g k). reverseEdge e \<in> set (edge_list g (edge_to e))"
  proof (intro allI ballI)
    fix k e assume e: "e \<in> set (edge_list g k)"
    then obtain es where "map_of (edges g) k = Some es"
      by (cases "map_of (edges g) k") (auto simp: edge_list_def)
    then have "k \<in> set (map fst (edges g))" by (auto dest: map_of_SomeD intro: rev_image_eqI)
    with s e show "reverseEdge e \<in> set (edge_list g (edge_to e))"
      by (auto simp: symmetric_def list_all_iff)
  qed
next
  assume "\<forall>k. \<forall>e\<in>set (edge_list g k). reverseEdge e \<in> set (edge_list g (edge_to e))"
  then show "symmetric g" by (simp add: symmetric_def list_all_iff)
qed

lemma symmetric_addDynamicNode:
  assumes s: "symmetric g" and empty: "edge_list g (node_id n) = []"
  shows "symmetric (addDynamicNode g n)"
  unfolding symmetric_iff
proof (intro allI ballI)
  fix k e
  let ?cs = "nearestThree (addNode g n) n"
  have el: "edge_list (addDynamicNode g n) k' = edge_list g k' @ linked n ?cs k'" for k'
    using empty by (simp add: edge_list_addDynamicNode)
  assume "e \<in> set (edge_list (addDynamicNode g n) k)"
  then consider "e \<in> set (edge_list g k)" | "e \<in> set (linked n ?cs k)"
    unfolding el by auto
  then show "reverseEdge e \<in> set (edge_list (addDynamicNode g n) (edge_to e))"
  proof cases
    case 1
    with s have "reverseEdge e \<in> set (edge_list g (edge_to e))" by (auto simp: symmetric_iff)
    then show ?thesis unfolding el by simp
  next
    case 2
    then show ?thesis
    proof (cases rule: linked_cases)
      case (1 node d)
      have "edge_to e = node_id node" using 1(3) by (simp add: dynamicEdge_def)
      with linked_back[OF 1(1), of n] 1(3) show ?thesis
        unfolding el by (simp add: reverse_dynamicEdge)
    next
      case (2 node d)
      have "edge_to e = node_id n" using 2(3) by (simp add: backEdge_def)
      with linked_forward[OF 2(1), of n] 2(3) show ?thesis
        unfolding el by (simp add: reverse_backEdge)
    qed
  qed
qed

lemma dynamic_roadType:
  assumes "e \<in> set (edge_list (addDynamicNode g n) (node_id n))"
  shows "roadType e = state_highway"
proof -
  from assms have "e \<in> set (linked n (nearestThree (addNode g n) n) (node_id n))"
    by (simp add: edge_list_addDynamicNode)
  then show ?thesis
    by (cases rule: linked_cases) (simp_all add: dynamicEdge_def backEdge_def)
qed

lemma set_update_subset: "set (AList.update k v al) \<subseteq> insert (k, v) (set al)"
  by (induction al) auto

lemma nearestThree_subset: "set (nearestThree g n) \<subseteq> set (nearbyNodes g n)"
  unfolding nearestThree_def using set_take_subset[of 3 "sort_key snd (nearbyNodes g n)"]
  by simp

lemma nearestThree_other:
  assumes km: "keys_match g" and c: "(node, d) \<in> set (nearestThree (addNode g n) n)"
  shows "node_id node \<noteq> node_id n"
proof -
  from c nearestThree_subset have "(node, d) \<in> set (nearbyNodes (addNode g n) n)" by blast
  then obtain k where k: "(k, node) \<in> set (AList.update (node_id n) n (nodes g))"
    "k \<noteq> node_id n" by (auto simp: nearbyNodes_def)
  with set_update_subset[of "node_id n" n "nodes g"] have "(k, node) \<in> set (nodes g)" by auto
  with km have "node_id node = k" by (auto simp: keys_match_def list_all_iff)
  with k(2) show ?thesis by simp
qed

lemma linked_own:
  assumes "\<forall>(node, d)\<in>set cs. node_id node \<noteq> node_id n"
  shows "linked n cs (node_id n) = map (\<lambda>(node, d). dynamicEdge n node d) cs"
  using assms by (induction cs) (auto simp: linked_def)

lemma linked_other:
  assumes "k \<noteq> node_id n"
  shows "linked n cs k =
     map (\<lambda>(node, d). backEdge n node d) (filter (\<lambda>(node, d). node_id node = k) cs)"
  using assms by (induction cs) (auto simp: linked_def)

lemma nearestThree_props:
  "length (nearestThree g n) \<le> 3 \<and> sorted (map snd (nearestThree g n)) \<and>
   (\<forall>(nb, d)\<in>set (nearestThree g n).
      d < 100 \<and> d = calculateHaversineDistance (lat n) (lng n) (lat nb) (lng nb)) \<and>
   (\<forall>c\<in>set (nearestThree g n). \<forall>c'\<in>set (drop 3 (sort_key snd (nearbyNodes g n))).
      snd c \<le> snd c')"
proof -
  let ?xs = "sort_key snd (nearbyNodes g n)"
  have s: "sorted (map snd ?xs)" by (rule sorted_sort_key)
  have "map snd ?xs = map snd (take 3 ?xs) @ map snd (drop 3 ?xs)"
    by (simp flip: map_append)
  with s have "sorted (map snd (take 3 ?xs) @ map snd (drop 3 ?xs))" by simp
  then have a: "sorted (map snd (take 3 ?xs))"
    and b: "\<forall>x\<in>set (take 3 ?xs). \<forall>y\<in>set (drop 3 ?xs). snd x \<le> snd y"
    by (auto simp: sorted_append)
  have c: "\<forall>(nb, d)\<in>set (nearestThree g n).
      d < 100 \<and> d = calculateHaversineDistance (lat n) (lng n) (lat nb) (lng nb)"
    using nearestThree_subset[of g n] by (auto simp: nearbyNodes_def)
  from a b c show ?thesis by (simp add: nearestThree_def)
qed

lemma keys_match_addDynamicNode:
  assumes "keys_match g"
  shows "keys_match (addDynamicNode g n)"
proof -
  have "set (nodes (addDynamicNode g n)) \<subseteq> insert (node_id n, n) (set (nodes g))"
    unfolding nodes_addDynamicNode by (rule set_update_subset)
  with assms show ?thesis by (auto simp: keys_match_def list_all_iff)
qed

subsection \<open>Concrete insertions\<close>

lemma nearFar_nearest_x:
  "nearestThree (addNode nearFar (testNode ''x'')) (testNode ''x'') =
     [((testNode ''a'')\<lparr> lng := 1 / 2 \<rparr>, 6371 * pi / 360)]"
  by (simp add: nearestThree_def nearbyNodes_def nearFar_def testNode_def addNode_def
      equator_half equator_two equator_bounds)

lemma nearFar_nearest_b:
  "nearestThree (addNode nearFar (testNode ''b'')) (testNode ''b'') =
     [((testNode ''a'')\<lparr> lng := 1 / 2 \<rparr>, 6371 * pi / 360)]"
  by (simp add: nearestThree_def nearbyNodes_def nearFar_def testNode_def addNode_def
      equator_half equator_two equator_bounds)

lemma nearFar_facts: "symmetric nearFar" "keys_match nearFar" "edge_list nearFar ''x'' = []"
  "has_node nearFar ''b''"
  by code_simp+

lemma seed_symmetric: "symmetric dijkstraRouter"
  by code_simp

lemma seed_panvel:
  "\<lparr> edge_from = ''panvel_junction'', edge_to = ''mumbai'', distance = 42, time = 45, cost = 50,
     roadType = expressway, tollCost = 0, trafficFactor = 1.2 \<rparr>
   \<in> set (edge_list dijkstraRouter ''panvel_junction'')"
  by code_simp

lemma seed_keys_match: "keys_match dijkstraRouter"
  by code_simp

lemma seed_nonneg:
  "nonneg dijkstraRouter ModeDistance \<and> nonneg dijkstraRouter ModeTime \<and>
   nonneg dijkstraRouter ModeCost"
  by code_simp

section \<open>Properties of the search\<close>









text \<open>
  C5. For a node \<open>A\<close> and every mode, \<^verbatim>\<open>findShortestPath(A, A, mode)\<close> returns the route
  with the path \<open>[A]\<close> and all three totals zero.
\<close>

theorem findShortestPath_same_node:
  assumes "has_node g A"
  shows "\<exists>r. findShortestPath g A A optimizeFor = Inr (Some r) \<and> path r = [A] \<and>
     totalDistance r = 0 \<and> totalTime r = 0 \<and> totalCost r = 0"
proof -
  let ?st = "init_state g A"
  have inv: "inv_s g optimizeFor A ?st" using assms by (rule inv_s_init)
  have AU: "A \<in> set (unvisited ?st)" using assms by (simp add: init_state_def has_node_iff)
  have "\<not> stuck ?st"
    using stuck_all_infinite[OF _ AU inv_sD(5)[OF inv]] by auto
  then obtain c d where scan:
    "scan_min (distances ?st) (unvisited ?st) (None, Infinity) = (Some c, Finite d)"
    by (auto simp: stuck_def)
  from inv_sD(7)[OF inv AU scan_min_found(2)[OF scan]] have c: "c = A" .
  have ne: "unvisited ?st \<noteq> []" using AU by auto
  have loop: "dijkstra_loop g optimizeFor A ?st = mark_visited A ?st"
    using scan c ne by (subst dijkstra_loop.simps) simp
  have P: "previous (mark_visited A ?st) A = Some None"
    using inv_sD(6)[OF inv] by simp
  have rec: "reconstruct (previous (mark_visited A ?st)) (Some A) [] = Some [A]"
    using P by (subst reconstruct.simps, simp, subst reconstruct.simps, simp)
  from assms obtain n where n: "map_of (nodes g) A = Some n" by (auto simp: has_node_def)
  have b: "buildRouteResult g [A] =
      Inr \<lparr> path = [A], totalDistance = 0, totalTime = 0, totalCost = 0,
            coordinates = [(lat n, lng n)], segments = [] \<rparr>"
    using n by (simp add: buildRouteResult_def math_round_def)
  show ?thesis
    using assms loop rec b by (simp add: findShortestPath_def)
qed

theorem findShortestPath_same_node_witness:
  "has_node handBuilt ''a'' \<and>
   (\<exists>r. findShortestPath handBuilt ''a'' ''a'' ModeTime = Inr (Some r) \<and> path r = [''a''] \<and>
      totalDistance r = 0 \<and> totalTime r = 0 \<and> totalCost r = 0)"
  using findShortestPath_same_node[OF handBuilt_nodes(1), of ModeTime] handBuilt_nodes(1)
  by simp

text \<open>
  C6. When the start id or the end id is not a key of the node map, \<^verbatim>\<open>findShortestPath\<close>
  returns \<^verbatim>\<open>null\<close>, the result of an unreachable end, and raises nothing; no walk joins the
  two ids.
\<close>

theorem findShortestPath_unknown_node:
  assumes "\<not> has_node g startId \<or> \<not> has_node g endId"
  shows "findShortestPath g startId endId optimizeFor = Inr None \<and>
     (\<forall>es. \<not> is_walk g startId es endId)"
  using assms findShortestPath_absent[of g startId endId optimizeFor]
    is_walk_has_node[of g startId _ endId] by blast

theorem findShortestPath_unknown_node_witness:
  "\<not> has_node handBuilt ''ghost'' \<and>
   findShortestPath handBuilt ''a'' ''ghost'' ModeDistance = Inr None \<and>
   (\<forall>es. \<not> is_walk handBuilt ''a'' es ''ghost'')"
  using findShortestPath_unknown_node[of handBuilt "''a''" "''ghost''" ModeDistance]
    handBuilt_nodes(3) by simp

text \<open>
  C8. \<^verbatim>\<open>findShortestPath\<close> always returns, a route or \<^verbatim>\<open>null\<close>, and every id of a returned
  path is a node. The distances are defined on the keys of the node map from the start
  of the search on, and relaxing keeps their domain; relaxing an edge whose target is not a
  key leaves the whole state, distances and predecessors, as it is.
\<close>

theorem findShortestPath_dead_end:
  "(\<exists>res. findShortestPath g startId endId optimizeFor = Inr res) \<and>
   (\<forall>r. findShortestPath g startId endId optimizeFor = Inr (Some r) \<longrightarrow>
        (\<forall>x\<in>set (path r). has_node g x)) \<and>
   (has_node g startId \<longrightarrow> dom (distances (init_state g startId)) = set (node_keys g)) \<and>
   (\<forall>st c e. dom (distances (relax_edge optimizeFor c st e)) = dom (distances st)) \<and>
   (\<forall>st c e. dom (distances st) = set (node_keys g) \<longrightarrow> \<not> has_node g (edge_to e) \<longrightarrow>
        relax_edge optimizeFor c st e = st)"
proof (intro conjI allI impI)
  show "\<exists>res. findShortestPath g startId endId optimizeFor = Inr res"
    by (rule findShortestPath_total)
next
  fix r assume "findShortestPath g startId endId optimizeFor = Inr (Some r)"
  from route_totals(4)[OF this] obtain es where "is_walk g startId es endId"
    "path r = startId # map edge_to es" by blast
  with is_walk_nodes[of g startId es endId] show "\<forall>x\<in>set (path r). has_node g x" by simp
next
  assume "has_node g startId"
  from inv_sD(1)[OF inv_s_init[OF this]]
  show "dom (distances (init_state g startId)) = set (node_keys g)" .
next
  fix st :: search_state and c and e :: GraphEdge
  show "dom (distances (relax_edge optimizeFor c st e)) = dom (distances st)"
    by (rule relax_edge_dom)
next
  fix st :: search_state and c and e :: GraphEdge
  assume d: "dom (distances st) = set (node_keys g)" and n: "\<not> has_node g (edge_to e)"
  then have "distances st (edge_to e) = None" by (auto simp: has_node_iff)
  then show "relax_edge optimizeFor c st e = st"
    by (simp add: relax_edge_def Let_def split: option.splits)
qed

theorem findShortestPath_dead_end_witness:
  "testEdge ''a'' ''ghost'' 1 1 1 \<in> set (edge_list handBuilt ''a'') \<and>
   \<not> has_node handBuilt ''ghost'' \<and>
   relax_edge ModeDistance ''a'' (init_state handBuilt ''a'') (testEdge ''a'' ''ghost'' 1 1 1)
     = init_state handBuilt ''a'' \<and>
   (\<exists>r. findShortestPath handBuilt ''a'' ''b'' ModeDistance = Inr (Some r) \<and>
      path r = [''a'', ''b''] \<and> ''ghost'' \<notin> set (path r))"
proof -
  have e: "testEdge ''a'' ''ghost'' 1 1 1 \<in> set (edge_list handBuilt ''a'')"
    by code_simp
  have t: "edge_to (testEdge ''a'' ''ghost'' 1 1 1) = ''ghost''"
    by (simp add: testEdge_def)
  note d = findShortestPath_dead_end[of handBuilt "''a''" "''b''" ModeDistance]
  from d handBuilt_nodes(1)
  have dom: "dom (distances (init_state handBuilt ''a'')) = set (node_keys handBuilt)"
    by blast
  from d dom handBuilt_nodes(3) t
  have rel: "relax_edge ModeDistance ''a'' (init_state handBuilt ''a'')
      (testEdge ''a'' ''ghost'' 1 1 1) = init_state handBuilt ''a''"
    by simp
  from projected_result[OF handBuilt_distance_route] obtain r where
    r: "findShortestPath handBuilt ''a'' ''b'' ModeDistance = Inr (Some r)"
       "path r = [''a'', ''b'']"
    by blast
  with e rel handBuilt_nodes(3) show ?thesis by (intro conjI exI[of _ r]) simp_all
qed



section \<open>Properties of the graph\<close>

text \<open>
  C4, at a node half a degree from a town. Inserting \<open>x\<close> at the origin into \<open>nearFar\<close>
  connects it to the one town within 100 km. The synthesized edge is a state highway
  without toll, of traffic factor 1 and cost 8 per km, but its time is the distance divided
  by 60, the hours at 60 km/h, and not the minutes \<open>distance / 60 * 60\<close>.
\<close>

theorem addDynamicNode_time_in_hours:
  "edge_list (addDynamicNode nearFar (testNode ''x'')) ''x'' =
     [\<lparr> edge_from = ''x'', edge_to = ''a'', distance = 6371 * pi / 360,
        time = 6371 * pi / 360 / 60, cost = 6371 * pi / 360 * 8, roadType = state_highway,
        tollCost = 0, trafficFactor = 1 \<rparr>] \<and>
   map time (edge_list (addDynamicNode nearFar (testNode ''x'')) ''x'') \<noteq>
   map (\<lambda>e. distance e / 60 * 60) (edge_list (addDynamicNode nearFar (testNode ''x'')) ''x'')"
proof -
  have el: "edge_list (addDynamicNode nearFar (testNode ''x'')) ''x'' =
     [\<lparr> edge_from = ''x'', edge_to = ''a'', distance = 6371 * pi / 360,
        time = 6371 * pi / 360 / 60, cost = 6371 * pi / 360 * 8, roadType = state_highway,
        tollCost = 0, trafficFactor = 1 \<rparr>]"
    unfolding edge_list_addDynamicNode nearFar_nearest_x
    by (simp add: linked_def dynamicEdge_def backEdge_def testNode_def nearFar_facts(3))
  show ?thesis unfolding el using equator_bounds(3) by simp
qed

text \<open>
  C7, for a node without stored edges. The seed network is symmetric; and inserting a
  dynamic node whose id has no outgoing edge stored keeps a symmetric router symmetric.
\<close>

theorem symmetric_network:
  "symmetric dijkstraRouter \<and>
   (symmetric g \<longrightarrow> edge_list g (node_id node) = [] \<longrightarrow> symmetric (addDynamicNode g node))"
  using seed_symmetric symmetric_addDynamicNode by blast

theorem symmetric_network_witness:
  "symmetric nearFar \<and> edge_list nearFar (node_id (testNode ''x'')) = [] \<and>
   symmetric (addDynamicNode nearFar (testNode ''x'')) \<and>
   edge_list (addDynamicNode nearFar (testNode ''x'')) ''x'' \<noteq> []"
proof -
  have e: "edge_list nearFar (node_id (testNode ''x'')) = []"
    using nearFar_facts(3) by (simp add: testNode_def)
  have "edge_list (addDynamicNode nearFar (testNode ''x'')) ''x'' \<noteq> []"
    unfolding edge_list_addDynamicNode nearFar_nearest_x
    by (simp add: linked_def testNode_def)
  with symmetric_network[of nearFar "testNode ''x''"] nearFar_facts(1) e
  show ?thesis by blast
qed

text \<open>
  Inserting a node under the id of Mumbai empties the adjacency list of Mumbai, and the
  edge from Panvel Junction to Mumbai is left without its reverse.
\<close>

theorem symmetric_network_counterexample:
  "symmetric dijkstraRouter \<and>
   \<not> symmetric (addDynamicNode dijkstraRouter
        \<lparr> node_id = ''mumbai'', lat = 19.0760, lng = 72.8777, node_name = ''Mumbai'',
          node_type = city \<rparr>)"
proof -
  let ?n = "\<lparr> node_id = ''mumbai'', lat = 19.0760, lng = 72.8777, node_name = ''Mumbai'',
          node_type = city \<rparr>"
  let ?e = "\<lparr> edge_from = ''panvel_junction'', edge_to = ''mumbai'', distance = 42, time = 45,
     cost = 50, roadType = expressway, tollCost = 0, trafficFactor = 1.2 \<rparr>"
  have "\<not> symmetric (addDynamicNode dijkstraRouter ?n)"
  proof
    assume s: "symmetric (addDynamicNode dijkstraRouter ?n)"
    have "?e \<in> set (edge_list (addDynamicNode dijkstraRouter ?n) ''panvel_junction'')"
      using seed_panvel by (simp add: edge_list_addDynamicNode)
    with s have "reverseEdge ?e \<in> set (edge_list (addDynamicNode dijkstraRouter ?n) (edge_to ?e))"
      unfolding symmetric_iff by blast
    then have "reverseEdge ?e \<in> set (edge_list (addDynamicNode dijkstraRouter ?n) (node_id ?n))"
      by simp
    from dynamic_roadType[OF this] show False by (simp add: reverseEdge_def)
  qed
  with seed_symmetric show ?thesis by simp
qed

text \<open>
  C10. \<^verbatim>\<open>addDynamicNode\<close> stores the given node under its id, also when the id is there
  already. The adjacency list of that id then holds synthesized edges of the nearest
  candidates and nothing else: whatever was stored there before is gone. When every node is
  filed under its own id, as in every router the class builds, the list is exactly the
  edges from the node to its candidates. The adjacency list of every other id keeps its
  edges, those into the id too, followed by the synthesized edges back.
\<close>

theorem addDynamicNode_overwrites:
  "map_of (nodes (addDynamicNode g node)) (node_id node) = Some node \<and>
   (\<forall>e\<in>set (edge_list (addDynamicNode g node) (node_id node)).
      \<exists>nb d. (nb, d) \<in> set (nearestThree (addNode g node) node) \<and>
        (e = dynamicEdge node nb d \<or> e = backEdge node nb d)) \<and>
   (keys_match g \<longrightarrow>
      edge_list (addDynamicNode g node) (node_id node) =
        map (\<lambda>(nb, d). dynamicEdge node nb d) (nearestThree (addNode g node) node)) \<and>
   (\<forall>k. k \<noteq> node_id node \<longrightarrow>
      edge_list (addDynamicNode g node) k =
        edge_list g k @
        map (\<lambda>(nb, d). backEdge node nb d)
          (filter (\<lambda>(nb, d). node_id nb = k) (nearestThree (addNode g node) node)))"
proof -
  let ?cs = "nearestThree (addNode g node) node"
  have n: "map_of (nodes (addDynamicNode g node)) (node_id node) = Some node"
    by (simp add: nodes_addDynamicNode update_conv')
  have only: "\<exists>nb d. (nb, d) \<in> set ?cs \<and> (e = dynamicEdge node nb d \<or> e = backEdge node nb d)"
    if "e \<in> set (edge_list (addDynamicNode g node) (node_id node))" for e
  proof -
    from that have "e \<in> set (linked node ?cs (node_id node))"
      by (simp add: edge_list_addDynamicNode)
    then show ?thesis by (cases rule: linked_cases) blast+
  qed
  have own: "edge_list (addDynamicNode g node) (node_id node) =
      map (\<lambda>(nb, d). dynamicEdge node nb d) ?cs" if km: "keys_match g"
  proof -
    have "\<forall>(nb, d)\<in>set ?cs. node_id nb \<noteq> node_id node"
      using nearestThree_other[OF km] by auto
    from linked_own[OF this] show ?thesis by (simp add: edge_list_addDynamicNode)
  qed
  have other: "edge_list (addDynamicNode g node) k =
        edge_list g k @
        map (\<lambda>(nb, d). backEdge node nb d) (filter (\<lambda>(nb, d). node_id nb = k) ?cs)"
    if "k \<noteq> node_id node" for k
    using that by (simp add: edge_list_addDynamicNode linked_other)
  from n only own other show ?thesis by blast
qed

theorem addDynamicNode_overwrites_witness:
  "keys_match nearFar \<and> has_node nearFar ''b'' \<and>
   edge_list nearFar ''b'' = [testEdge ''b'' ''a'' 56 50 400] \<and>
   map_of (nodes (addDynamicNode nearFar (testNode ''b''))) ''b'' = Some (testNode ''b'') \<and>
   edge_list (addDynamicNode nearFar (testNode ''b'')) ''b'' =
     [dynamicEdge (testNode ''b'') ((testNode ''a'')\<lparr> lng := 1 / 2 \<rparr>) (6371 * pi / 360)] \<and>
   edge_list (addDynamicNode nearFar (testNode ''b'')) ''a'' =
     [testEdge ''a'' ''b'' 56 50 400,
      backEdge (testNode ''b'') ((testNode ''a'')\<lparr> lng := 1 / 2 \<rparr>) (6371 * pi / 360)]"
proof -
  have b: "node_id (testNode ''b'') = ''b''" by (simp add: testNode_def)
  have ea: "edge_list nearFar ''a'' = [testEdge ''a'' ''b'' 56 50 400]"
    and eb: "edge_list nearFar ''b'' = [testEdge ''b'' ''a'' 56 50 400]"
    by (simp_all add: nearFar_def edge_list_def)
  from addDynamicNode_overwrites[of nearFar "testNode ''b''"]
  show ?thesis
    unfolding nearFar_nearest_b b using nearFar_facts(2,4) ea eb
    by (simp add: testNode_def)
qed

end
